theory Spec2Isabelle
  imports Main "HOL-Library.Multiset"
begin


section \<open>Data model of s3zip.go\<close>

text \<open>
  Go strings are byte strings, so \<open>string\<close> (a list of 8-bit characters) is used for
  bucket names, keys, archive paths, file paths and file contents alike.
\<close>

record Object =
  Bucket :: string
  Key :: string

text \<open>
  \<open>fpath\<close> is the unexported field of the Go struct: the path of the downloaded file on
  disk, the empty string until \<open>downloadOnDisk\<close> sets it.
\<close>

record Resource =
  Object :: Object
  FileName :: string
  fpath :: string

text \<open>
  Of the struct \<open>S3Zip\<close> only \<open>concurrency\<close> is data; the uploader and the downloader
  are handles of the storage client, whose behaviour enters the model as the object store
  (a function from objects to their bytes) and as the outcome of each call. Go's \<open>int\<close>
  is modelled by \<open>int\<close>: the code only compares \<open>concurrency\<close> and counts up to it, so no
  arithmetic on it can overflow.
\<close>

record S3Zip =
  concurrency :: int

definition WithConcurrency :: "int \<Rightarrow> S3Zip \<Rightarrow> S3Zip" where
  "WithConcurrency c = (\<lambda>z. z\<lparr>concurrency := c\<rparr>)"

definition New :: "(S3Zip \<Rightarrow> S3Zip) list \<Rightarrow> S3Zip" where
  "New opts = foldl (\<lambda>z opt. opt z) \<lparr>concurrency = 1\<rparr> opts"

text \<open>Go errors: a cause, wrapped by \<open>fmt.Errorf("...: %w", err)\<close> with a message.\<close>

datatype error = Cause string | Wrap string error

section \<open>The local file system and the standard library calls\<close>

text \<open>
  A file holds bytes; the finished zip file holds its entries (name and content), the
  container encoding being out of scope.
\<close>

datatype content = Data string | Archive "(string \<times> string) list"

type_synonym fsys = "string \<Rightarrow> content option"

text \<open>
  Outcomes of the calls that leave the program. \<open>TmpRnd r\<close>: \<open>os.CreateTemp\<close> draws
  the random string \<open>r\<close> in its last try; \<open>TmpErr\<close>: it fails for a reason outside the
  program (resource exhaustion). \<open>DlErr part\<close>: the download fails after writing \<open>part\<close>.
\<close>

datatype tmp_oc = TmpErr | TmpRnd string

datatype dl_oc = DlOk | DlErr string

datatype zip_oc = ZOk | ZCreateErr | ZCopyErr string

text \<open>
  \<open>os.CreateTemp("", pattern)\<close> of the Go standard library (os/tempfile.go): the
  function \<open>prefixAndSuffix\<close> refuses a pattern that contains a path separator, before
  anything is created; otherwise the last \<open>*\<close> of the pattern is replaced by the random
  string, and the file is created exclusively (\<open>O_EXCL\<close>) in the temporary directory
  (\<open>/tmp\<close>). A name that exists makes Go draw again, up to 10000 times, before it gives
  up with \<open>ErrExist\<close>: the outcome carries the string of the last try.
\<close>

definition prefixAndSuffix :: "string \<Rightarrow> error + (string \<times> string)" where
  "prefixAndSuffix pattern =
     (if CHR ''/'' \<in> set pattern then Inl (Cause ''pattern contains path separator'')
      else if CHR ''*'' \<in> set pattern then
        (let suffix = rev (takeWhile (\<lambda>c. c \<noteq> CHR ''*'') (rev pattern))
         in Inr (take (length pattern - length suffix - 1) pattern, suffix))
      else Inr (pattern, []))"

definition CreateTemp :: "fsys \<Rightarrow> tmp_oc \<Rightarrow> string \<Rightarrow> error + (string \<times> fsys)" where
  "CreateTemp fs oc pattern =
     (case prefixAndSuffix pattern of
        Inl e \<Rightarrow> Inl (Wrap ''createtemp'' e)
      | Inr (prefix, suffix) \<Rightarrow>
          (case oc of
             TmpErr \<Rightarrow> Inl (Cause ''open'')
           | TmpRnd rnd \<Rightarrow>
               (let name = ''/tmp/'' @ prefix @ rnd @ suffix
                in if fs name = None then Inr (name, fs(name \<mapsto> Data []))
                   else Inl (Wrap ''createtemp'' (Cause ''file exists'')))))"

text \<open>\<open>os.Remove\<close>, its error ignored as every caller in s3zip.go does.\<close>

definition Remove :: "string \<Rightarrow> fsys \<Rightarrow> fsys" where
  "Remove p fs = fs(p := None)"

section \<open>The sequential functions of s3zip.go\<close>

text \<open>\<open>download\<close>: the storage client streams the object's bytes into the open file.\<close>

definition download :: "(Object \<Rightarrow> string) \<Rightarrow> fsys \<Rightarrow> dl_oc \<Rightarrow> string \<Rightarrow> Object \<Rightarrow> fsys \<times> error option" where
  "download store fs oc f obj =
     (case oc of
        DlOk \<Rightarrow> (fs(f \<mapsto> Data (store obj)), None)
      | DlErr part \<Rightarrow> (fs(f \<mapsto> Data part), Some (Cause ''download'')))"

text \<open>
  \<open>downloadOnDisk\<close>: creates the temporary file from the pattern \<open>"*." + res.FileName\<close>,
  downloads into it, and sets \<open>fpath\<close> on success. On a download error the file that was
  created stays where it is: the function has no \<open>os.Remove\<close>.
\<close>

definition downloadOnDisk :: "(Object \<Rightarrow> string) \<Rightarrow> fsys \<Rightarrow> tmp_oc \<Rightarrow> dl_oc \<Rightarrow> Resource \<Rightarrow> fsys \<times> Resource \<times> error option" where
  "downloadOnDisk store fs toc doc res =
     (case CreateTemp fs toc (''*.'' @ FileName res) of
        Inl e \<Rightarrow> (fs, res, Some e)
      | Inr (f, fs1) \<Rightarrow>
          (case download store fs1 doc f (Object res) of
             (fs2, Some e) \<Rightarrow> (fs2, res, Some (Wrap ''failed to download'' e))
           | (fs2, None) \<Rightarrow> (fs2, res\<lparr>fpath := f\<rparr>, None)))"

text \<open>
  \<open>upload\<close>: opens the file and puts its content at the destination object. The bucket
  records what the run has uploaded.
\<close>

type_synonym bucket = "Object \<Rightarrow> content option"

definition upload :: "bucket \<Rightarrow> fsys \<Rightarrow> bool \<Rightarrow> Object \<Rightarrow> string \<Rightarrow> bucket \<times> error option" where
  "upload b fs ok destObj p =
     (case fs p of
        None \<Rightarrow> (b, Some (Wrap ''failed to open a file'' (Cause ''open'')))
      | Some c \<Rightarrow> if ok then (b(destObj \<mapsto> c), None) else (b, Some (Cause ''upload'')))"

text \<open>
  The state of \<open>archive\<close> between two iterations of its loop: the temporary zip file
  \<open>zf\<close>, the entries written through the zip writer \<open>zw\<close> so far, and the paths whose
  \<open>os.Remove\<close> is deferred (last registered first).
\<close>

record zipw =
  zf :: string
  entries :: "(string \<times> string) list"
  deferred :: "string list"

text \<open>
  \<open>addToZip\<close>: \<open>zw.Create(res.FileName)\<close> opens the entry, \<open>os.Open(res.fpath)\<close>
  fails when the file does not exist, \<open>io.Copy\<close> copies the bytes. An entry opened
  before a later failure stays in the writer, with the bytes copied so far.

  \<open>raw\<close> are the bytes \<open>io.Copy\<close> reads from a file. For a file that is itself an
  archive the model fixes some bytes; \<open>fpath\<close> never names such a file in a run of \<open>Do\<close>.
\<close>

fun raw :: "content \<Rightarrow> string" where
  "raw (Data b) = b"
| "raw (Archive es) = concat (map (\<lambda>(n, c). n @ c) es)"

definition addToZip :: "fsys \<Rightarrow> zip_oc \<Rightarrow> zipw \<Rightarrow> Resource \<Rightarrow> zipw \<times> error option" where
  "addToZip fs oc zw res =
     (if oc = ZCreateErr then (zw, Some (Wrap ''failed to add a file to the zip file'' (Cause ''create'')))
      else case fs (fpath res) of
        None \<Rightarrow> (zw\<lparr>entries := entries zw @ [(FileName res, [])]\<rparr>,
                 Some (Wrap ''failed to open a downloaded file'' (Cause ''open'')))
      | Some c \<Rightarrow>
          (case oc of
             ZCopyErr part \<Rightarrow> (zw\<lparr>entries := entries zw @ [(FileName res, part)]\<rparr>,
                               Some (Wrap ''failed to compress a file'' (Cause ''copy'')))
           | _ \<Rightarrow> (zw\<lparr>entries := entries zw @ [(FileName res, raw c)]\<rparr>, None)))"

text \<open>
  One iteration of the loop of \<open>archive\<close>: an item with an empty \<open>fpath\<close> is skipped by
  \<open>continue\<close>; otherwise the removal of its file is deferred and it is added to the zip.
\<close>

definition archive_body :: "fsys \<Rightarrow> zip_oc \<Rightarrow> zipw \<Rightarrow> Resource \<Rightarrow> zipw \<times> error option" where
  "archive_body fs oc zw res =
     (if fpath res = [] then (zw, None)
      else addToZip fs oc (zw\<lparr>deferred := fpath res # deferred zw\<rparr>) res)"

text \<open>The deferred calls of \<open>archive\<close>, run when it returns on any path.\<close>

definition run_deferred :: "zipw \<Rightarrow> fsys \<Rightarrow> fsys" where
  "run_deferred zw fs = fold Remove (deferred zw) fs"

text \<open>The end of \<open>archive\<close>, after the loop: \<open>zw.Close()\<close>, then the deferred calls.\<close>

definition archive_close :: "fsys \<Rightarrow> bool \<Rightarrow> zipw \<Rightarrow> fsys \<times> string \<times> error option" where
  "archive_close fs ok zw =
     (if ok then (run_deferred zw (fs(zf zw \<mapsto> Archive (entries zw))), zf zw, None)
      else (run_deferred zw fs, [], Some (Wrap ''failed to close zip file'' (Cause ''close''))))"

text \<open>
  \<open>zip.NewWriter(zf)\<close>: from here on the temporary file is the archive being written.
  Its entries are held by the writer and reach the file when the writer is closed; what
  an unfinished archive holds on disk is not modelled.
\<close>

definition NewWriter :: "string \<Rightarrow> fsys \<Rightarrow> fsys" where
  "NewWriter f fs = fs(f \<mapsto> Archive [])"

text \<open>
  \<open>archive\<close> on a queue given as the list of the items the channel delivers before it is
  closed, each with the outcome of its \<open>addToZip\<close>.
\<close>

fun archive_loop :: "fsys \<Rightarrow> zipw \<Rightarrow> (Resource \<times> zip_oc) list \<Rightarrow> zipw \<times> error option" where
  "archive_loop fs zw [] = (zw, None)"
| "archive_loop fs zw ((res, oc) # queue) =
     (case archive_body fs oc zw res of
        (zw1, Some e) \<Rightarrow> (zw1, Some e)
      | (zw1, None) \<Rightarrow> archive_loop fs zw1 queue)"

definition archive :: "fsys \<Rightarrow> tmp_oc \<Rightarrow> bool \<Rightarrow> (Resource \<times> zip_oc) list \<Rightarrow> fsys \<times> string \<times> error option" where
  "archive fs toc ok queue =
     (case CreateTemp fs toc ''*.s3.zip'' of
        Inl e \<Rightarrow> (fs, [], Some (Wrap ''failed to create a temp zip file'' e))
      | Inr (f, fs1) \<Rightarrow>
          (case archive_loop (NewWriter f fs1) \<lparr>zf = f, entries = [], deferred = []\<rparr> queue of
             (zw, Some e) \<Rightarrow> (run_deferred zw (NewWriter f fs1), [], Some e)
           | (zw, None) \<Rightarrow> archive_close (NewWriter f fs1) ok zw))"

section \<open>The pipeline of \<open>Do\<close>: goroutines and unbuffered channels\<close>

text \<open>
  \<open>Do\<close> starts the goroutine of \<open>gen\<close>, one goroutine per download worker
  (\<open>runDownloadWorker\<close>), one forwarder per worker channel and one closer (\<open>merge\<close>), and
  then runs \<open>archive\<close> and \<open>upload\<close> itself. All channels are unbuffered: a send
  and a receive happen together, as one step of the two goroutines involved.

  Each goroutine is modelled by the point of its code it stands at. A step of the model
  is one channel operation (a send with its receive, or a close), or one call of
  \<open>downloadOnDisk\<close>, of \<open>os.CreateTemp\<close> in \<open>archive\<close>, of the loop body of \<open>archive\<close>, of
  its end, or of \<open>upload\<close>, taken as a whole; the scheduler interleaves the steps of the
  goroutines in any order.
\<close>

text \<open>
  A download worker: \<open>WRecv\<close> at \<open>for res := range queue\<close>; \<open>WGot res\<close> about to call
  \<open>downloadOnDisk\<close>; \<open>WSend res\<close> at \<open>out <- res\<close>; \<open>WClosed\<close> after its return, its
  channel closed by the deferred \<open>close(out)\<close>.
\<close>

datatype worker = WRecv | WGot Resource | WSend Resource | WClosed

text \<open>
  A forwarder of \<open>merge\<close>: \<open>FRecv\<close> at \<open>for r := range c\<close>; \<open>FSend r\<close> at \<open>out <- r\<close>;
  \<open>FDone\<close> after \<open>wg.Done()\<close>.
\<close>

datatype forwarder = FRecv | FSend Resource | FDone

text \<open>
  The goroutine that called \<open>Do\<close>: \<open>MPanic\<close> after the runtime panic of \<open>make\<close> on a
  negative length; \<open>MArchive\<close> about to call \<open>archive\<close>; \<open>ARecv zw\<close> at
  \<open>for res := range queue\<close> in \<open>archive\<close>; \<open>ABody zw res\<close> in the loop body with the
  item received; \<open>MUpload p\<close> about to call \<open>upload\<close> with the zip's path, the removal of
  the zip deferred; \<open>MReturned e\<close> after the return of \<open>Do\<close> (\<open>None\<close> is \<open>nil\<close>).
\<close>

datatype mainst = MPanic | MArchive | ARecv zipw | ABody zipw Resource | MUpload string
  | MReturned "error option"

text \<open>
  The state of a run. \<open>gen_rest\<close> are the resources \<open>gen\<close> has still to send and
  \<open>ch_closed\<close> says that it has closed its channel; \<open>out_closed\<close> is the merged channel of
  \<open>merge\<close>. The last four fields only observe the run: what was received from the channel
  of \<open>gen\<close> and by which worker, what each worker sent on its channel, what \<open>archive\<close>
  received from the merged channel, and the errors of \<open>downloadOnDisk\<close>.
\<close>

record pstate =
  gen_rest :: "Resource list"
  ch_closed :: bool
  workers :: "worker list"
  fwds :: "forwarder list"
  out_closed :: bool
  main :: mainst
  destObj :: Object
  files :: fsys
  uploaded :: bucket
  received :: "(nat \<times> Resource) list"
  emitted :: "(nat \<times> Resource) list"
  merged :: "(nat \<times> Resource) list"
  failed :: "(Resource \<times> error) list"

text \<open>
  The steps of a run, each chosen by the scheduler and carrying the outcome of the calls
  that leave the program.
\<close>

datatype action =
    GenSend nat
  | GenClose
  | WorkerDownload nat tmp_oc dl_oc
  | WorkerExit nat
  | WorkerEmit nat
  | FwdDone nat
  | FwdEmit nat
  | MergeClose
  | ArchiveCreate tmp_oc
  | ArchiveItem zip_oc
  | ArchiveFinish bool
  | Upload bool

text \<open>
  \<open>gen\<close>: \<open>ch <- res\<close> for each resource in order, received by worker \<open>w\<close> at its
  \<open>range\<close>; then the deferred \<open>close(ch)\<close>.
\<close>

definition gen_send :: "nat \<Rightarrow> pstate \<Rightarrow> pstate option" where
  "gen_send w s =
     (case gen_rest s of
        [] \<Rightarrow> None
      | res # rest \<Rightarrow>
          if w < length (workers s) \<and> workers s ! w = WRecv
          then Some (s\<lparr>gen_rest := rest, workers := (workers s)[w := WGot res],
                       received := received s @ [(w, res)]\<rparr>)
          else None)"

definition gen_close :: "pstate \<Rightarrow> pstate option" where
  "gen_close s =
     (if gen_rest s = [] \<and> \<not> ch_closed s then Some (s\<lparr>ch_closed := True\<rparr>) else None)"

text \<open>
  \<open>runDownloadWorker\<close>: on an error of \<open>downloadOnDisk\<close> the goroutine returns (the
  error is dropped) and the deferred \<open>close(out)\<close> runs; on success it goes on to
  \<open>out <- res\<close>. When the queue is closed the loop ends and the goroutine returns.
\<close>

definition worker_download :: "(Object \<Rightarrow> string) \<Rightarrow> nat \<Rightarrow> tmp_oc \<Rightarrow> dl_oc \<Rightarrow> pstate \<Rightarrow> pstate option" where
  "worker_download store w toc doc s =
     (if w < length (workers s) then
        (case workers s ! w of
           WGot res \<Rightarrow>
             (case downloadOnDisk store (files s) toc doc res of
                (fs, res1, Some e) \<Rightarrow>
                  Some (s\<lparr>workers := (workers s)[w := WClosed], files := fs,
                          failed := failed s @ [(res, e)]\<rparr>)
              | (fs, res1, None) \<Rightarrow>
                  Some (s\<lparr>workers := (workers s)[w := WSend res1], files := fs\<rparr>))
         | _ \<Rightarrow> None)
      else None)"

definition worker_exit :: "nat \<Rightarrow> pstate \<Rightarrow> pstate option" where
  "worker_exit w s =
     (if w < length (workers s) \<and> workers s ! w = WRecv \<and> ch_closed s
      then Some (s\<lparr>workers := (workers s)[w := WClosed]\<rparr>)
      else None)"

text \<open>\<open>out <- res\<close> of worker \<open>w\<close>, received by its forwarder at \<open>for r := range c\<close>.\<close>

definition worker_emit :: "nat \<Rightarrow> pstate \<Rightarrow> pstate option" where
  "worker_emit w s =
     (if w < length (workers s) \<and> w < length (fwds s) then
        (case (workers s ! w, fwds s ! w) of
           (WSend res, FRecv) \<Rightarrow>
             Some (s\<lparr>workers := (workers s)[w := WRecv], fwds := (fwds s)[w := FSend res],
                     emitted := emitted s @ [(w, res)]\<rparr>)
         | _ \<Rightarrow> None)
      else None)"

text \<open>
  \<open>merge\<close>: a forwarder whose channel is closed leaves its loop and calls \<open>wg.Done()\<close>;
  \<open>out <- r\<close> is received by the loop of \<open>archive\<close>; the closer passes \<open>wg.Wait()\<close>
  once every forwarder is done (at once when there is none) and closes \<open>out\<close>.
\<close>

definition fwd_done :: "nat \<Rightarrow> pstate \<Rightarrow> pstate option" where
  "fwd_done w s =
     (if w < length (workers s) \<and> w < length (fwds s) \<and> workers s ! w = WClosed \<and> fwds s ! w = FRecv
      then Some (s\<lparr>fwds := (fwds s)[w := FDone]\<rparr>)
      else None)"

definition fwd_emit :: "nat \<Rightarrow> pstate \<Rightarrow> pstate option" where
  "fwd_emit w s =
     (if w < length (fwds s) then
        (case (fwds s ! w, main s) of
           (FSend res, ARecv zw) \<Rightarrow>
             Some (s\<lparr>fwds := (fwds s)[w := FRecv], main := ABody zw res,
                     merged := merged s @ [(w, res)]\<rparr>)
         | _ \<Rightarrow> None)
      else None)"

definition merge_close :: "pstate \<Rightarrow> pstate option" where
  "merge_close s =
     (if list_all (\<lambda>f. f = FDone) (fwds s) \<and> \<not> out_closed s
      then Some (s\<lparr>out_closed := True\<rparr>)
      else None)"

text \<open>
  \<open>Do\<close> and \<open>archive\<close> on the calling goroutine. An error of \<open>archive\<close> makes \<open>Do\<close>
  return before \<open>defer os.Remove(zipFpath)\<close> is reached; after it, the removal runs on
  every return.
\<close>

definition archive_create :: "tmp_oc \<Rightarrow> pstate \<Rightarrow> pstate option" where
  "archive_create toc s =
     (case main s of
        MArchive \<Rightarrow>
          (case CreateTemp (files s) toc ''*.s3.zip'' of
             Inl e \<Rightarrow>
               Some (s\<lparr>main := MReturned (Some (Wrap ''failed to zip''
                         (Wrap ''failed to create a temp zip file'' e)))\<rparr>)
           | Inr (f, fs) \<Rightarrow>
               Some (s\<lparr>main := ARecv \<lparr>zf = f, entries = [], deferred = []\<rparr>,
                       files := NewWriter f fs\<rparr>))
      | _ \<Rightarrow> None)"

definition archive_item :: "zip_oc \<Rightarrow> pstate \<Rightarrow> pstate option" where
  "archive_item oc s =
     (case main s of
        ABody zw res \<Rightarrow>
          (case archive_body (files s) oc zw res of
             (zw1, Some e) \<Rightarrow>
               Some (s\<lparr>main := MReturned (Some (Wrap ''failed to zip'' e)),
                       files := run_deferred zw1 (files s)\<rparr>)
           | (zw1, None) \<Rightarrow> Some (s\<lparr>main := ARecv zw1\<rparr>))
      | _ \<Rightarrow> None)"

definition archive_finish :: "bool \<Rightarrow> pstate \<Rightarrow> pstate option" where
  "archive_finish ok s =
     (case main s of
        ARecv zw \<Rightarrow>
          if out_closed s then
            (case archive_close (files s) ok zw of
               (fs, p, Some e) \<Rightarrow>
                 Some (s\<lparr>main := MReturned (Some (Wrap ''failed to zip'' e)), files := fs\<rparr>)
             | (fs, p, None) \<Rightarrow> Some (s\<lparr>main := MUpload p, files := fs\<rparr>))
          else None
      | _ \<Rightarrow> None)"

definition do_upload :: "bool \<Rightarrow> pstate \<Rightarrow> pstate option" where
  "do_upload ok s =
     (case main s of
        MUpload p \<Rightarrow>
          (case upload (uploaded s) (files s) ok (destObj s) p of
             (b, Some e) \<Rightarrow>
               Some (s\<lparr>main := MReturned (Some (Wrap ''failed to upload zip'' e)),
                       files := Remove p (files s)\<rparr>)
           | (b, None) \<Rightarrow>
               Some (s\<lparr>main := MReturned None, files := Remove p (files s), uploaded := b\<rparr>))
      | _ \<Rightarrow> None)"

fun step :: "(Object \<Rightarrow> string) \<Rightarrow> pstate \<Rightarrow> action \<Rightarrow> pstate option" where
  "step store s (GenSend w) = gen_send w s"
| "step store s GenClose = gen_close s"
| "step store s (WorkerDownload w toc doc) = worker_download store w toc doc s"
| "step store s (WorkerExit w) = worker_exit w s"
| "step store s (WorkerEmit w) = worker_emit w s"
| "step store s (FwdDone w) = fwd_done w s"
| "step store s (FwdEmit w) = fwd_emit w s"
| "step store s MergeClose = merge_close s"
| "step store s (ArchiveCreate toc) = archive_create toc s"
| "step store s (ArchiveItem oc) = archive_item oc s"
| "step store s (ArchiveFinish ok) = archive_finish ok s"
| "step store s (Upload ok) = do_upload ok s"

text \<open>
  A run under a schedule: \<open>None\<close> when the schedule asks for a step that the state does
  not allow (a goroutine that is not at that point, a send without a receiver).
\<close>

fun exec :: "(Object \<Rightarrow> string) \<Rightarrow> pstate \<Rightarrow> action list \<Rightarrow> pstate option" where
  "exec store s [] = Some s"
| "exec store s (a # sched) =
     (case step store s a of None \<Rightarrow> None | Some s1 \<Rightarrow> exec store s1 sched)"

text \<open>
  The start of \<open>Do\<close>: \<open>gen(resources...)\<close> starts its goroutine; \<open>make\<close> panics when
  \<open>z.concurrency\<close> is negative; otherwise the loop starts \<open>z.concurrency\<close> workers and
  \<open>merge\<close> a forwarder for each. \<open>fs\<close> are the files that exist before the run. Memory
  is not modelled: a length that the runtime cannot allocate is not told apart.
\<close>

definition Do_start :: "S3Zip \<Rightarrow> fsys \<Rightarrow> Object \<Rightarrow> Resource list \<Rightarrow> pstate" where
  "Do_start z fs dest resources =
     \<lparr>gen_rest = resources, ch_closed = False,
      workers = (if concurrency z < 0 then [] else replicate (nat (concurrency z)) WRecv),
      fwds = (if concurrency z < 0 then [] else replicate (nat (concurrency z)) FRecv),
      out_closed = False,
      main = (if concurrency z < 0 then MPanic else MArchive),
      destObj = dest, files = fs, uploaded = Map.empty,
      received = [], emitted = [], merged = [], failed = []\<rparr>"

definition Do :: "(Object \<Rightarrow> string) \<Rightarrow> S3Zip \<Rightarrow> fsys \<Rightarrow> Object \<Rightarrow> Resource list \<Rightarrow> action list \<Rightarrow> pstate option" where
  "Do store z fs dest resources sched = exec store (Do_start z fs dest resources) sched"

section \<open>\<open>merge\<close> on its own\<close>

text \<open>
  \<open>merge(cs...)\<close> for any channels \<open>cs\<close>. The goroutines that send on the channels of
  \<open>cs\<close> and the one that receives from \<open>out\<close> are not part of \<open>merge\<close>: channel \<open>i\<close>
  carries the items of a sequence, in order, and is closed after the last one, and the
  receiver of \<open>out\<close> takes whatever is sent.

  \<open>inputs\<close> is what is still to be sent on each channel and \<open>in_closed\<close> tells which
  channels are closed; \<open>mfwds\<close> are the forwarders of \<open>merge\<close>, one per channel;
  \<open>m_closed\<close> says that \<open>out\<close> is closed; \<open>outputs\<close> is what has been received from
  \<open>out\<close>, in order, each item with the number of the forwarder that sent it.
\<close>

record mstate =
  inputs :: "Resource list list"
  in_closed :: "bool list"
  mfwds :: "forwarder list"
  m_closed :: bool
  outputs :: "(nat \<times> Resource) list"

datatype maction = ChanSend nat | ChanClose nat | MergeDone nat | MergeEmit nat | MergeCloseOut

text \<open>
  A send on channel \<open>i\<close>, received by forwarder \<open>i\<close> at \<open>for r := range c\<close>, and the
  close of channel \<open>i\<close>.
\<close>

definition chan_send :: "nat \<Rightarrow> mstate \<Rightarrow> mstate option" where
  "chan_send i m =
     (if i < length (inputs m) \<and> i < length (mfwds m) \<and> mfwds m ! i = FRecv then
        (case inputs m ! i of
           [] \<Rightarrow> None
         | r # rest \<Rightarrow> Some (m\<lparr>inputs := (inputs m)[i := rest], mfwds := (mfwds m)[i := FSend r]\<rparr>))
      else None)"

definition chan_close :: "nat \<Rightarrow> mstate \<Rightarrow> mstate option" where
  "chan_close i m =
     (if i < length (inputs m) \<and> i < length (in_closed m) \<and> inputs m ! i = [] \<and> \<not> in_closed m ! i
      then Some (m\<lparr>in_closed := (in_closed m)[i := True]\<rparr>)
      else None)"

text \<open>
  Forwarder \<open>i\<close>: the end of its loop on a closed channel, with \<open>wg.Done()\<close>, and
  \<open>out <- r\<close>. The closer: \<open>wg.Wait()\<close> returns once every forwarder is done, then
  \<open>close(out)\<close>. A send on a closed channel panics in Go; here \<open>out\<close> is closed only
  after every forwarder is done (part of the invariant \<open>inv_m\<close> below), so that no
  forwarder stands at its send once \<open>out\<close> is closed.
\<close>

definition merge_done :: "nat \<Rightarrow> mstate \<Rightarrow> mstate option" where
  "merge_done i m =
     (if i < length (mfwds m) \<and> i < length (in_closed m) \<and> mfwds m ! i = FRecv \<and> in_closed m ! i
      then Some (m\<lparr>mfwds := (mfwds m)[i := FDone]\<rparr>)
      else None)"

definition merge_emit :: "nat \<Rightarrow> mstate \<Rightarrow> mstate option" where
  "merge_emit i m =
     (if i < length (mfwds m) then
        (case mfwds m ! i of
           FSend r \<Rightarrow> Some (m\<lparr>mfwds := (mfwds m)[i := FRecv], outputs := outputs m @ [(i, r)]\<rparr>)
         | _ \<Rightarrow> None)
      else None)"

definition merge_close_out :: "mstate \<Rightarrow> mstate option" where
  "merge_close_out m =
     (if list_all (\<lambda>f. f = FDone) (mfwds m) \<and> \<not> m_closed m
      then Some (m\<lparr>m_closed := True\<rparr>)
      else None)"

fun merge_step :: "mstate \<Rightarrow> maction \<Rightarrow> mstate option" where
  "merge_step m (ChanSend i) = chan_send i m"
| "merge_step m (ChanClose i) = chan_close i m"
| "merge_step m (MergeDone i) = merge_done i m"
| "merge_step m (MergeEmit i) = merge_emit i m"
| "merge_step m MergeCloseOut = merge_close_out m"

fun merge_exec :: "mstate \<Rightarrow> maction list \<Rightarrow> mstate option" where
  "merge_exec m [] = Some m"
| "merge_exec m (a # sched) =
     (case merge_step m a of None \<Rightarrow> None | Some m1 \<Rightarrow> merge_exec m1 sched)"

text \<open>
  The call \<open>merge(cs...)\<close> starts one forwarder per channel and the closer and returns
  \<open>out\<close>; \<open>outs\<close> are the sequences that the channels of \<open>cs\<close> will carry.
\<close>

definition merge_start :: "Resource list list \<Rightarrow> mstate" where
  "merge_start outs =
     \<lparr>inputs = outs, in_closed = replicate (length outs) False,
      mfwds = replicate (length outs) FRecv, m_closed = False, outputs = []\<rparr>"

definition merge :: "Resource list list \<Rightarrow> maction list \<Rightarrow> mstate option" where
  "merge outs sched = merge_exec (merge_start outs) sched"

section \<open>Invariants of a run\<close>

text \<open>
  The loop of \<open>archive\<close> has ended by the close of the merged channel: \<open>Do\<close> is about to
  upload, or has returned \<open>nil\<close>, or has returned the error of \<open>upload\<close> or of
  \<open>zw.Close()\<close>.
\<close>

fun loop_ended :: "mainst \<Rightarrow> bool" where
  "loop_ended (MUpload p) = True"
| "loop_ended (MReturned None) = True"
| "loop_ended (MReturned (Some (Wrap msg e))) =
     (msg = ''failed to upload zip'' \<or>
      msg = ''failed to zip'' \<and> (case e of Wrap msg1 e1 \<Rightarrow> msg1 = ''failed to close zip file'' | Cause c \<Rightarrow> False))"
| "loop_ended (MReturned (Some (Cause c))) = False"
| "loop_ended MPanic = False"
| "loop_ended MArchive = False"
| "loop_ended (ARecv zw) = False"
| "loop_ended (ABody zw res) = False"

text \<open>
  The chain of closes: the merged channel is closed after every forwarder is done, a
  forwarder is done after its worker has closed its channel, and a worker returns after
  the task source is closed or after a failed \<open>downloadOnDisk\<close>.
\<close>

definition inv_struct :: "pstate \<Rightarrow> bool" where
  "inv_struct s \<longleftrightarrow>
     length (fwds s) = length (workers s) \<and>
     (ch_closed s \<longrightarrow> gen_rest s = []) \<and>
     (out_closed s \<longrightarrow> (\<forall>w < length (workers s). fwds s ! w = FDone)) \<and>
     (\<forall>w < length (workers s). fwds s ! w = FDone \<longrightarrow> workers s ! w = WClosed) \<and>
     ((\<exists>w < length (workers s). workers s ! w = WClosed) \<longrightarrow> ch_closed s \<or> failed s \<noteq> []) \<and>
     (loop_ended (main s) \<longrightarrow> out_closed s)"

text \<open>What a forwarder of \<open>merge\<close> holds between its receive and its send.\<close>

fun fheld :: "forwarder \<Rightarrow> Resource multiset" where
  "fheld (FSend res) = {#res#}"
| "fheld FRecv = {#}"
| "fheld FDone = {#}"

definition inv_gen :: "Resource list \<Rightarrow> pstate \<Rightarrow> bool" where
  "inv_gen rs s \<longleftrightarrow>
     map snd (received s) @ gen_rest s = rs \<and>
     (ch_closed s \<longrightarrow> gen_rest s = []) \<and>
     (\<forall>w res. (w, res) \<in> set (received s) \<longrightarrow> w < length (workers s))"

definition inv_merge :: "pstate \<Rightarrow> bool" where
  "inv_merge s \<longleftrightarrow>
     mset (map snd (merged s)) + sum_list (map fheld (fwds s)) = mset (map snd (emitted s))"

text \<open>The archive entry a resource stands for: its archive path and the bytes of its object.\<close>

definition ent :: "(Object \<Rightarrow> string) \<Rightarrow> Resource \<Rightarrow> string \<times> string" where
  "ent store res = (FileName res, store (Object res))"

text \<open>
  A staged resource: its \<open>fpath\<close> is set and names a file that holds the bytes of its
  object.
\<close>

definition staged :: "(Object \<Rightarrow> string) \<Rightarrow> fsys \<Rightarrow> Resource \<Rightarrow> bool" where
  "staged store fs res \<longleftrightarrow> fpath res \<noteq> [] \<and> fs (fpath res) = Some (Data (store (Object res)))"

definition zip_ok :: "fsys \<Rightarrow> zipw \<Rightarrow> bool" where
  "zip_ok fs zw \<longleftrightarrow>
     fs (zf zw) = Some (Archive []) \<and> (\<forall>p. p \<in> set (deferred zw) \<longrightarrow> (\<exists>b. fs p = Some (Data b)))"

fun in_archive :: "mainst \<Rightarrow> bool" where
  "in_archive MArchive = True"
| "in_archive (ARecv zw) = True"
| "in_archive (ABody zw res) = True"
| "in_archive MPanic = False"
| "in_archive (MUpload p) = False"
| "in_archive (MReturned e) = False"

text \<open>Every resource handed on by a worker carries a non-empty \<open>fpath\<close>.\<close>

definition inv_fpath :: "pstate \<Rightarrow> bool" where
  "inv_fpath s \<longleftrightarrow>
     (\<forall>w res. w < length (workers s) \<and> workers s ! w = WSend res \<longrightarrow> fpath res \<noteq> []) \<and>
     (\<forall>w res. w < length (fwds s) \<and> fwds s ! w = FSend res \<longrightarrow> fpath res \<noteq> []) \<and>
     (\<forall>zw res. main s = ABody zw res \<longrightarrow> fpath res \<noteq> []) \<and>
     (\<forall>w res. (w, res) \<in> set (emitted s) \<longrightarrow> fpath res \<noteq> []) \<and>
     (\<forall>w res. (w, res) \<in> set (merged s) \<longrightarrow> fpath res \<noteq> [])"

text \<open>
  While \<open>archive\<close> runs no file is removed: what the workers and forwarders hold is
  staged, the zip's file exists, and the deferred paths name downloaded files.
\<close>

definition inv_files :: "(Object \<Rightarrow> string) \<Rightarrow> pstate \<Rightarrow> bool" where
  "inv_files store s \<longleftrightarrow>
     (in_archive (main s) \<longrightarrow>
        (\<forall>w res. w < length (workers s) \<and> workers s ! w = WSend res \<longrightarrow> staged store (files s) res) \<and>
        (\<forall>w res. w < length (fwds s) \<and> fwds s ! w = FSend res \<longrightarrow> staged store (files s) res)) \<and>
     (\<forall>zw. main s = ARecv zw \<longrightarrow> zip_ok (files s) zw) \<and>
     (\<forall>zw res. main s = ABody zw res \<longrightarrow> zip_ok (files s) zw \<and> staged store (files s) res)"

text \<open>
  The entries still under way: with the task source, in a worker, in a forwarder, or
  lost with a failed \<open>downloadOnDisk\<close>.
\<close>

fun wload :: "(Object \<Rightarrow> string) \<Rightarrow> worker \<Rightarrow> (string \<times> string) multiset" where
  "wload store (WGot res) = {#ent store res#}"
| "wload store (WSend res) = {#ent store res#}"
| "wload store WRecv = {#}"
| "wload store WClosed = {#}"

fun fload :: "(Object \<Rightarrow> string) \<Rightarrow> forwarder \<Rightarrow> (string \<times> string) multiset" where
  "fload store (FSend res) = {#ent store res#}"
| "fload store FRecv = {#}"
| "fload store FDone = {#}"

definition load :: "(Object \<Rightarrow> string) \<Rightarrow> pstate \<Rightarrow> (string \<times> string) multiset" where
  "load store s =
     mset (map (ent store) (gen_rest s)) + sum_list (map (wload store) (workers s)) +
     sum_list (map (fload store) (fwds s)) + mset (map (\<lambda>(res, e). ent store res) (failed s))"

text \<open>
  Nothing is lost or made up: the entries under way and the entries written are the
  entries of the resources \<open>Do\<close> was given.
\<close>

definition inv_cons :: "(Object \<Rightarrow> string) \<Rightarrow> Resource list \<Rightarrow> pstate \<Rightarrow> bool" where
  "inv_cons store rs s \<longleftrightarrow>
     (main s = MArchive \<longrightarrow> load store s = mset (map (ent store) rs)) \<and>
     (\<forall>zw. main s = ARecv zw \<longrightarrow> load store s + mset (entries zw) = mset (map (ent store) rs)) \<and>
     (\<forall>zw res. main s = ABody zw res \<longrightarrow>
        load store s + mset (entries zw) + {#ent store res#} = mset (map (ent store) rs)) \<and>
     (\<forall>p. main s = MUpload p \<longrightarrow>
        (\<exists>es. files s p = Some (Archive es) \<and> load store s + mset es = mset (map (ent store) rs))) \<and>
     (main s = MReturned None \<longrightarrow>
        (\<exists>es. uploaded s (destObj s) = Some (Archive es) \<and>
              load store s + mset es = mset (map (ent store) rs)))"

text \<open>
  The invariant of a run of \<open>Do\<close> on the resources \<open>rs\<close> with destination \<open>dest\<close> and
  \<open>n\<close> workers.
\<close>

definition inv_run :: "(Object \<Rightarrow> string) \<Rightarrow> Resource list \<Rightarrow> Object \<Rightarrow> nat \<Rightarrow> pstate \<Rightarrow> bool" where
  "inv_run store rs dest n s \<longleftrightarrow>
     inv_struct s \<and> inv_gen rs s \<and> inv_merge s \<and> inv_fpath s \<and> inv_files store s \<and>
     inv_cons store rs s \<and> destObj s = dest \<and> length (workers s) = n"

text \<open>Every goroutine started by \<open>Do\<close> has run to its end.\<close>

definition all_terminated :: "pstate \<Rightarrow> bool" where
  "all_terminated s \<longleftrightarrow>
     gen_rest s = [] \<and> ch_closed s \<and> list_all (\<lambda>w. w = WClosed) (workers s) \<and>
     list_all (\<lambda>f. f = FDone) (fwds s) \<and> out_closed s"

text \<open>
  A bound on the steps a run has left: every step of every goroutine lowers it, so
  no schedule goes on for ever.
\<close>

fun wfuel :: "worker \<Rightarrow> nat" where
  "wfuel WRecv = 1"
| "wfuel (WGot res) = 5"
| "wfuel (WSend res) = 4"
| "wfuel WClosed = 0"

fun ffuel :: "forwarder \<Rightarrow> nat" where
  "ffuel FRecv = 1"
| "ffuel (FSend res) = 3"
| "ffuel FDone = 0"

fun mfuel :: "mainst \<Rightarrow> nat" where
  "mfuel MPanic = 0"
| "mfuel MArchive = 5"
| "mfuel (ARecv zw) = 3"
| "mfuel (ABody zw res) = 4"
| "mfuel (MUpload p) = 1"
| "mfuel (MReturned e) = 0"

definition fuel :: "pstate \<Rightarrow> nat" where
  "fuel s =
     6 * length (gen_rest s) + (if ch_closed s then 0 else 1) +
     sum_list (map wfuel (workers s)) + sum_list (map ffuel (fwds s)) +
     (if out_closed s then 0 else 1) + mfuel (main s)"

text \<open>
  A step that goes well: no \<open>downloadOnDisk\<close> fails in it and \<open>Do\<close> does not return an
  error by it.
\<close>

definition good_step :: "(Object \<Rightarrow> string) \<Rightarrow> pstate \<Rightarrow> action \<Rightarrow> pstate \<Rightarrow> bool" where
  "good_step store s a s1 \<longleftrightarrow>
     step store s a = Some s1 \<and> failed s1 = failed s \<and> main s1 \<noteq> MPanic \<and>
     (\<forall>e. main s1 \<noteq> MReturned (Some e))"

text \<open>
  What a run that goes well needs besides the invariant: finitely many files in the
  temporary directory, and no path separator in the archive paths still to be staged.
\<close>

definition inv_env :: "pstate \<Rightarrow> bool" where
  "inv_env s \<longleftrightarrow>
     finite (dom (files s)) \<and>
     (\<forall>res. res \<in> set (gen_rest s) \<longrightarrow> CHR ''/'' \<notin> set (FileName res)) \<and>
     (\<forall>w res. w < length (workers s) \<and> workers s ! w = WGot res \<longrightarrow> CHR ''/'' \<notin> set (FileName res))"

text \<open>\<open>Do\<close> has neither panicked nor returned.\<close>

fun running :: "mainst \<Rightarrow> bool" where
  "running MPanic = False"
| "running (MReturned e) = False"
| "running MArchive = True"
| "running (ARecv zw) = True"
| "running (ABody zw res) = True"
| "running (MUpload p) = True"

text \<open>
  The task source is blocked for good: it stands at a send, and every worker has
  returned.
\<close>

definition gen_blocked :: "pstate \<Rightarrow> bool" where
  "gen_blocked s \<longleftrightarrow> gen_rest s \<noteq> [] \<and> list_all (\<lambda>w. w = WClosed) (workers s)"

text \<open>The errors \<open>Do\<close> returns are those of its own two stages, \<open>archive\<close> and \<open>upload\<close>.\<close>

definition inv_error :: "pstate \<Rightarrow> bool" where
  "inv_error s \<longleftrightarrow>
     (\<forall>e. main s = MReturned (Some e) \<longrightarrow>
        (\<exists>e1. e = Wrap ''failed to zip'' e1 \<or> e = Wrap ''failed to upload zip'' e1))"

text \<open>
  The temporary files a run owns: the staged files on their way to \<open>archive\<close>, the zip's
  file, and the files whose removal is deferred.
\<close>

fun mpaths :: "mainst \<Rightarrow> string set" where
  "mpaths (ARecv zw) = insert (zf zw) (set (deferred zw))"
| "mpaths (ABody zw res) = insert (fpath res) (insert (zf zw) (set (deferred zw)))"
| "mpaths (MUpload p) = {p}"
| "mpaths MPanic = {}"
| "mpaths MArchive = {}"
| "mpaths (MReturned e) = {}"

definition wpaths :: "worker list \<Rightarrow> string set" where
  "wpaths ws = {p. \<exists>w res. w < length ws \<and> ws ! w = WSend res \<and> fpath res = p}"

definition fpaths :: "forwarder list \<Rightarrow> string set" where
  "fpaths fs = {p. \<exists>w res. w < length fs \<and> fs ! w = FSend res \<and> fpath res = p}"

definition live :: "pstate \<Rightarrow> string set" where
  "live s = wpaths (workers s) \<union> fpaths (fwds s) \<union> mpaths (main s)"

text \<open>
  \<open>Do\<close> is on a path on which it cleans up: it has not returned an error of \<open>archive\<close>.
\<close>

fun tidy :: "mainst \<Rightarrow> bool" where
  "tidy (MReturned (Some (Wrap msg e))) = (msg = ''failed to upload zip'')"
| "tidy (MReturned (Some (Cause c))) = False"
| "tidy (MReturned None) = True"
| "tidy MPanic = True"
| "tidy MArchive = True"
| "tidy (ARecv zw) = True"
| "tidy (ABody zw res) = True"
| "tidy (MUpload p) = True"

text \<open>
  As long as no download fails and \<open>archive\<close> does not fail, the temporary directory
  holds the files it held before the run (\<open>fs0\<close>) and, besides, exactly the files the run
  owns.
\<close>

definition inv_tidy :: "fsys \<Rightarrow> pstate \<Rightarrow> bool" where
  "inv_tidy fs0 s \<longleftrightarrow>
     (failed s = [] \<and> tidy (main s) \<longrightarrow>
        (\<forall>p. p \<in> live s \<longrightarrow> files s p \<noteq> None \<and> fs0 p = None) \<and>
        (\<forall>p. p \<notin> live s \<longrightarrow> files s p = fs0 p))"

text \<open>With no worker the run can only create, close and upload an empty archive.\<close>

definition inv_idle :: "pstate \<Rightarrow> bool" where
  "inv_idle s \<longleftrightarrow>
     workers s = [] \<and> fwds s = [] \<and> received s = [] \<and> emitted s = [] \<and> merged s = [] \<and>
     failed s = [] \<and>
     (\<forall>zw. main s = ARecv zw \<longrightarrow>
        entries zw = [] \<and> deferred zw = [] \<and> files s (zf zw) = Some (Archive [])) \<and>
     (\<forall>zw res. main s \<noteq> ABody zw res) \<and>
     (\<forall>p. main s = MUpload p \<longrightarrow> files s p = Some (Archive [])) \<and>
     (main s = MReturned None \<longrightarrow> uploaded s (destObj s) = Some (Archive []))"

text \<open>The number of sends of \<open>gen\<close> in a schedule.\<close>

fun is_gen_send :: "action \<Rightarrow> bool" where
  "is_gen_send (GenSend w) = True"
| "is_gen_send a = False"

definition sends :: "action list \<Rightarrow> nat" where
  "sends sched = length (filter is_gen_send sched)"

text \<open>Invariants of \<open>merge\<close> on its own.\<close>

text \<open>The item a forwarder holds, and what forwarder \<open>i\<close> has sent on \<open>out\<close>.\<close>

fun fitem :: "forwarder \<Rightarrow> Resource list" where
  "fitem (FSend r) = [r]"
| "fitem FRecv = []"
| "fitem FDone = []"

definition sent_by :: "nat \<Rightarrow> (nat \<times> Resource) list \<Rightarrow> Resource list" where
  "sent_by i xs = map snd (filter (\<lambda>x. fst x = i) xs)"

definition inv_m :: "Resource list list \<Rightarrow> mstate \<Rightarrow> bool" where
  "inv_m outs m \<longleftrightarrow>
     length (inputs m) = length outs \<and> length (in_closed m) = length outs \<and>
     length (mfwds m) = length outs \<and>
     (\<forall>i<length outs. sent_by i (outputs m) @ fitem (mfwds m ! i) @ inputs m ! i = outs ! i) \<and>
     (\<forall>i r. (i, r) \<in> set (outputs m) \<longrightarrow> i < length outs) \<and>
     mset (map snd (outputs m)) + sum_list (map fheld (mfwds m)) + mset (concat (inputs m)) =
       mset (concat outs) \<and>
     (\<forall>i<length outs. in_closed m ! i \<longrightarrow> inputs m ! i = []) \<and>
     (\<forall>i<length outs. mfwds m ! i = FDone \<longrightarrow> in_closed m ! i) \<and>
     (m_closed m \<longrightarrow> (\<forall>i<length outs. mfwds m ! i = FDone))"

text \<open>A bound on the number of steps that \<open>merge\<close> and its channels can still take.\<close>

fun ffuel_m :: "forwarder \<Rightarrow> nat" where
  "ffuel_m FRecv = 1"
| "ffuel_m (FSend r) = 2"
| "ffuel_m FDone = 0"

definition fuel_m :: "mstate \<Rightarrow> nat" where
  "fuel_m m =
     sum_list (map (\<lambda>xs. 2 * length xs) (inputs m)) +
     sum_list (map (\<lambda>b. if b then 0 else 1) (in_closed m)) +
     sum_list (map ffuel_m (mfwds m)) + (if m_closed m then 0 else 1)"

section \<open>Example inputs\<close>

definition res_a :: Resource where
  "res_a = \<lparr>Object = \<lparr>Bucket = ''bucket1'', Key = ''a.txt''\<rparr>, FileName = ''a.txt'', fpath = []\<rparr>"

definition res_b :: Resource where
  "res_b = \<lparr>Object = \<lparr>Bucket = ''bucket1'', Key = ''b.txt''\<rparr>, FileName = ''b.txt'', fpath = []\<rparr>"

definition res_baz :: Resource where
  "res_baz = \<lparr>Object = \<lparr>Bucket = ''source-bucket-name'', Key = ''other/key/of/source-file-name.txt''\<rparr>,
              FileName = ''bar/baz.txt'', fpath = []\<rparr>"

definition dest_zip :: Object where
  "dest_zip = \<lparr>Bucket = ''bucket2'', Key = ''out.zip''\<rparr>"

definition store_demo :: "Object \<Rightarrow> string" where
  "store_demo obj = ''bytes of '' @ Key obj"

section \<open>Facts about the sequential functions and the steps\<close>

lemma CreateTemp_Inr:
  assumes "CreateTemp fs oc pat = Inr (f, fs1)"
  shows "fs f = None \<and> fs1 = fs(f \<mapsto> Data []) \<and> f \<noteq> []"
  using assms
  by (auto simp: CreateTemp_def Let_def split: sum.splits tmp_oc.splits if_splits prod.splits)

lemma downloadOnDisk_ok:
  assumes "downloadOnDisk store fs toc doc res = (fs1, res1, None)"
  shows "fs (fpath res1) = None \<and> fs1 = fs(fpath res1 \<mapsto> Data (store (Object res)))
         \<and> fpath res1 \<noteq> [] \<and> res1 = res\<lparr>fpath := fpath res1\<rparr>"
  using assms
  by (auto simp: downloadOnDisk_def download_def dest!: CreateTemp_Inr
           split: sum.splits prod.splits dl_oc.splits option.splits)

lemma downloadOnDisk_grows:
  assumes "downloadOnDisk store fs toc doc res = (fs1, res1, e)"
  shows "fs \<subseteq>\<^sub>m fs1 \<and> (finite (dom fs) \<longrightarrow> finite (dom fs1))"
  using assms
  by (auto simp: downloadOnDisk_def download_def map_le_def dest!: CreateTemp_Inr
           split: sum.splits prod.splits dl_oc.splits option.splits)

lemma gen_sendE:
  assumes "gen_send w s = Some s1"
  obtains res rest where "gen_rest s = res # rest" "w < length (workers s)" "workers s ! w = WRecv"
    "s1 = s\<lparr>gen_rest := rest, workers := (workers s)[w := WGot res], received := received s @ [(w, res)]\<rparr>"
  using assms by (simp add: gen_send_def split: list.splits if_splits)

lemma gen_closeE:
  assumes "gen_close s = Some s1"
  obtains "gen_rest s = []" "\<not> ch_closed s" "s1 = s\<lparr>ch_closed := True\<rparr>"
  using assms by (simp add: gen_close_def split: if_splits)

lemma worker_downloadE:
  assumes "worker_download store w toc doc s = Some s1"
  obtains (fail) res fs res1 e where "w < length (workers s)" "workers s ! w = WGot res"
      "downloadOnDisk store (files s) toc doc res = (fs, res1, Some e)"
      "s1 = s\<lparr>workers := (workers s)[w := WClosed], files := fs, failed := failed s @ [(res, e)]\<rparr>"
    | (ok) res fs res1 where "w < length (workers s)" "workers s ! w = WGot res"
      "downloadOnDisk store (files s) toc doc res = (fs, res1, None)"
      "s1 = s\<lparr>workers := (workers s)[w := WSend res1], files := fs\<rparr>"
  using assms by (simp add: worker_download_def split: if_splits worker.splits prod.splits option.splits)

lemma worker_exitE:
  assumes "worker_exit w s = Some s1"
  obtains "w < length (workers s)" "workers s ! w = WRecv" "ch_closed s"
    "s1 = s\<lparr>workers := (workers s)[w := WClosed]\<rparr>"
  using assms by (simp add: worker_exit_def split: if_splits)

lemma worker_emitE:
  assumes "worker_emit w s = Some s1"
  obtains res where "w < length (workers s)" "w < length (fwds s)" "workers s ! w = WSend res"
    "fwds s ! w = FRecv"
    "s1 = s\<lparr>workers := (workers s)[w := WRecv], fwds := (fwds s)[w := FSend res],
            emitted := emitted s @ [(w, res)]\<rparr>"
  using assms by (simp add: worker_emit_def split: if_splits worker.splits forwarder.splits)

lemma fwd_doneE:
  assumes "fwd_done w s = Some s1"
  obtains "w < length (workers s)" "w < length (fwds s)" "workers s ! w = WClosed"
    "fwds s ! w = FRecv" "s1 = s\<lparr>fwds := (fwds s)[w := FDone]\<rparr>"
  using assms by (simp add: fwd_done_def split: if_splits)

lemma fwd_emitE:
  assumes "fwd_emit w s = Some s1"
  obtains res zw where "w < length (fwds s)" "fwds s ! w = FSend res" "main s = ARecv zw"
    "s1 = s\<lparr>fwds := (fwds s)[w := FRecv], main := ABody zw res, merged := merged s @ [(w, res)]\<rparr>"
  using assms by (simp add: fwd_emit_def split: if_splits forwarder.splits mainst.splits)

lemma merge_closeE:
  assumes "merge_close s = Some s1"
  obtains "\<forall>w < length (fwds s). fwds s ! w = FDone" "\<not> out_closed s" "s1 = s\<lparr>out_closed := True\<rparr>"
  using assms by (simp add: merge_close_def list_all_length split: if_splits)

lemma archive_createE:
  assumes "archive_create toc s = Some s1"
  obtains (fail) e where "main s = MArchive" "CreateTemp (files s) toc ''*.s3.zip'' = Inl e"
      "s1 = s\<lparr>main := MReturned (Some (Wrap ''failed to zip'' (Wrap ''failed to create a temp zip file'' e)))\<rparr>"
    | (ok) f fs where "main s = MArchive" "CreateTemp (files s) toc ''*.s3.zip'' = Inr (f, fs)"
      "s1 = s\<lparr>main := ARecv \<lparr>zf = f, entries = [], deferred = []\<rparr>, files := NewWriter f fs\<rparr>"
  using assms by (simp add: archive_create_def split: mainst.splits sum.splits prod.splits)

lemma archive_itemE:
  assumes "archive_item oc s = Some s1"
  obtains (fail) zw res zw1 e where "main s = ABody zw res"
      "archive_body (files s) oc zw res = (zw1, Some e)"
      "s1 = s\<lparr>main := MReturned (Some (Wrap ''failed to zip'' e)), files := run_deferred zw1 (files s)\<rparr>"
    | (ok) zw res zw1 where "main s = ABody zw res"
      "archive_body (files s) oc zw res = (zw1, None)" "s1 = s\<lparr>main := ARecv zw1\<rparr>"
  using assms by (simp add: archive_item_def split: mainst.splits prod.splits option.splits)

lemma archive_finishE:
  assumes "archive_finish ok s = Some s1"
  obtains (fail) zw fs p e where "main s = ARecv zw" "out_closed s"
      "archive_close (files s) ok zw = (fs, p, Some e)"
      "s1 = s\<lparr>main := MReturned (Some (Wrap ''failed to zip'' e)), files := fs\<rparr>"
    | (ok) zw fs p where "main s = ARecv zw" "out_closed s"
      "archive_close (files s) ok zw = (fs, p, None)" "s1 = s\<lparr>main := MUpload p, files := fs\<rparr>"
  using assms by (simp add: archive_finish_def split: mainst.splits if_splits prod.splits option.splits)

lemma do_uploadE:
  assumes "do_upload ok s = Some s1"
  obtains (fail) p b e where "main s = MUpload p"
      "upload (uploaded s) (files s) ok (destObj s) p = (b, Some e)"
      "s1 = s\<lparr>main := MReturned (Some (Wrap ''failed to upload zip'' e)), files := Remove p (files s)\<rparr>"
    | (ok) p b where "main s = MUpload p"
      "upload (uploaded s) (files s) ok (destObj s) p = (b, None)"
      "s1 = s\<lparr>main := MReturned None, files := Remove p (files s), uploaded := b\<rparr>"
  using assms by (simp add: do_upload_def split: mainst.splits prod.splits option.splits)



lemma stepE:
  assumes "step store s a = Some s1"
  obtains
    (GenSend) w res rest where "a = GenSend w" "gen_rest s = res # rest" "w < length (workers s)"
      "workers s ! w = WRecv"
      "s1 = s\<lparr>gen_rest := rest, workers := (workers s)[w := WGot res], received := received s @ [(w, res)]\<rparr>"
  | (GenClose) "a = GenClose" "gen_rest s = []" "\<not> ch_closed s" "s1 = s\<lparr>ch_closed := True\<rparr>"
  | (DownloadFail) w toc doc res fs res1 e where "a = WorkerDownload w toc doc"
      "w < length (workers s)" "workers s ! w = WGot res"
      "downloadOnDisk store (files s) toc doc res = (fs, res1, Some e)"
      "s1 = s\<lparr>workers := (workers s)[w := WClosed], files := fs, failed := failed s @ [(res, e)]\<rparr>"
  | (DownloadOk) w toc doc res fs res1 where "a = WorkerDownload w toc doc"
      "w < length (workers s)" "workers s ! w = WGot res"
      "downloadOnDisk store (files s) toc doc res = (fs, res1, None)"
      "s1 = s\<lparr>workers := (workers s)[w := WSend res1], files := fs\<rparr>"
  | (WorkerExit) w where "a = WorkerExit w" "w < length (workers s)" "workers s ! w = WRecv"
      "ch_closed s" "s1 = s\<lparr>workers := (workers s)[w := WClosed]\<rparr>"
  | (WorkerEmit) w res where "a = WorkerEmit w" "w < length (workers s)" "w < length (fwds s)"
      "workers s ! w = WSend res" "fwds s ! w = FRecv"
      "s1 = s\<lparr>workers := (workers s)[w := WRecv], fwds := (fwds s)[w := FSend res],
              emitted := emitted s @ [(w, res)]\<rparr>"
  | (FwdDone) w where "a = FwdDone w" "w < length (workers s)" "w < length (fwds s)"
      "workers s ! w = WClosed" "fwds s ! w = FRecv" "s1 = s\<lparr>fwds := (fwds s)[w := FDone]\<rparr>"
  | (FwdEmit) w res zw where "a = FwdEmit w" "w < length (fwds s)" "fwds s ! w = FSend res"
      "main s = ARecv zw"
      "s1 = s\<lparr>fwds := (fwds s)[w := FRecv], main := ABody zw res, merged := merged s @ [(w, res)]\<rparr>"
  | (MergeClose) "a = MergeClose" "\<forall>w < length (fwds s). fwds s ! w = FDone" "\<not> out_closed s"
      "s1 = s\<lparr>out_closed := True\<rparr>"
  | (CreateFail) toc e where "a = ArchiveCreate toc" "main s = MArchive"
      "CreateTemp (files s) toc ''*.s3.zip'' = Inl e"
      "s1 = s\<lparr>main := MReturned (Some (Wrap ''failed to zip'' (Wrap ''failed to create a temp zip file'' e)))\<rparr>"
  | (CreateOk) toc f fs where "a = ArchiveCreate toc" "main s = MArchive"
      "CreateTemp (files s) toc ''*.s3.zip'' = Inr (f, fs)"
      "s1 = s\<lparr>main := ARecv \<lparr>zf = f, entries = [], deferred = []\<rparr>, files := NewWriter f fs\<rparr>"
  | (ItemFail) oc zw res zw1 e where "a = ArchiveItem oc" "main s = ABody zw res"
      "archive_body (files s) oc zw res = (zw1, Some e)"
      "s1 = s\<lparr>main := MReturned (Some (Wrap ''failed to zip'' e)), files := run_deferred zw1 (files s)\<rparr>"
  | (ItemOk) oc zw res zw1 where "a = ArchiveItem oc" "main s = ABody zw res"
      "archive_body (files s) oc zw res = (zw1, None)" "s1 = s\<lparr>main := ARecv zw1\<rparr>"
  | (FinishFail) ok zw fs p e where "a = ArchiveFinish ok" "main s = ARecv zw" "out_closed s"
      "archive_close (files s) ok zw = (fs, p, Some e)"
      "s1 = s\<lparr>main := MReturned (Some (Wrap ''failed to zip'' e)), files := fs\<rparr>"
  | (FinishOk) ok zw fs p where "a = ArchiveFinish ok" "main s = ARecv zw" "out_closed s"
      "archive_close (files s) ok zw = (fs, p, None)" "s1 = s\<lparr>main := MUpload p, files := fs\<rparr>"
  | (UploadFail) ok p b e where "a = Upload ok" "main s = MUpload p"
      "upload (uploaded s) (files s) ok (destObj s) p = (b, Some e)"
      "s1 = s\<lparr>main := MReturned (Some (Wrap ''failed to upload zip'' e)), files := Remove p (files s)\<rparr>"
  | (UploadOk) ok p b where "a = Upload ok" "main s = MUpload p"
      "upload (uploaded s) (files s) ok (destObj s) p = (b, None)"
      "s1 = s\<lparr>main := MReturned None, files := Remove p (files s), uploaded := b\<rparr>"
proof (cases a)
  case (GenSend w) with assms that(1) show ?thesis by (auto elim: gen_sendE)
next
  case GenClose with assms that(2) show ?thesis by (auto elim: gen_closeE)
next
  case (WorkerDownload w toc doc) with assms that(3,4) show ?thesis by (auto elim: worker_downloadE)
next
  case (WorkerExit w) with assms that(5) show ?thesis by (auto elim: worker_exitE)
next
  case (WorkerEmit w) with assms that(6) show ?thesis by (auto elim: worker_emitE)
next
  case (FwdDone w) with assms that(7) show ?thesis by (auto elim: fwd_doneE)
next
  case (FwdEmit w) with assms that(8) show ?thesis by (auto elim: fwd_emitE)
next
  case MergeClose with assms that(9) show ?thesis by (auto elim: merge_closeE)
next
  case (ArchiveCreate toc) with assms that(10,11) show ?thesis by (auto elim: archive_createE)
next
  case (ArchiveItem oc) with assms that(12,13) show ?thesis by (auto elim: archive_itemE)
next
  case (ArchiveFinish ok) with assms that(14,15) show ?thesis by (auto elim: archive_finishE)
next
  case (Upload ok) with assms that(16,17) show ?thesis by (auto elim: do_uploadE)
qed

lemma archive_body_error:
  assumes "archive_body fs oc zw res = (zw1, Some e)"
  shows "e = Wrap ''failed to add a file to the zip file'' (Cause ''create'') \<or>
         e = Wrap ''failed to open a downloaded file'' (Cause ''open'') \<or>
         e = Wrap ''failed to compress a file'' (Cause ''copy'')"
  using assms
  by (auto simp: archive_body_def addToZip_def split: if_splits option.splits zip_oc.splits)

lemma inv_struct_step:
  assumes "step store s a = Some s1" and "inv_struct s"
  shows "inv_struct s1"
  using assms(1)
proof (cases rule: stepE)
  case (ItemFail oc zw res zw1 e)
  from archive_body_error [OF ItemFail(3)] have "\<not> loop_ended (MReturned (Some (Wrap ''failed to zip'' e)))"
    by auto
  then show ?thesis using assms(2) ItemFail
    by (auto simp: inv_struct_def)
qed (use assms(2) in \<open>auto simp: inv_struct_def nth_list_update split: if_splits\<close>)

lemma exec_invariant:
  assumes "exec store s sched = Some s1" and "I s"
    and "\<And>s a s1. step store s a = Some s1 \<Longrightarrow> I s \<Longrightarrow> I s1"
  shows "I s1"
  using assms(1,2)
proof (induction sched arbitrary: s)
  case Nil
  then show ?case by simp
next
  case (Cons a sched)
  then show ?case by (auto split: option.splits intro: assms(3))
qed

lemma inv_idle_step:
  assumes "step store s a = Some s1" and "inv_idle s"
  shows "inv_idle s1"
  using assms(1)
  by (rule stepE)
     (use assms(2) in \<open>auto simp: inv_idle_def archive_close_def run_deferred_def upload_def
        NewWriter_def Remove_def dest!: CreateTemp_Inr split: if_splits option.splits\<close>)

lemma panic_step:
  assumes "step store s a = Some s1" and "main s = MPanic"
  shows "main s1 = MPanic"
  using assms(1) by (rule stepE) (use assms(2) in auto)

lemmas run_defs = Do_def Do_start_def New_def WithConcurrency_def gen_send_def gen_close_def
  worker_download_def worker_exit_def worker_emit_def fwd_done_def fwd_emit_def merge_close_def
  archive_create_def archive_item_def archive_finish_def do_upload_def downloadOnDisk_def
  CreateTemp_def prefixAndSuffix_def download_def upload_def archive_body_def addToZip_def
  archive_close_def run_deferred_def NewWriter_def Remove_def Let_def

lemma Do_zero_run:
  assumes "concurrency z = 0" and "fs (''/tmp/'' @ rnd @ ''.s3.zip'') = None"
  shows "\<exists>s. Do store z fs dest rs [ArchiveCreate (TmpRnd rnd), MergeClose, ArchiveFinish True, Upload True] = Some s
     \<and> main s = MReturned None \<and> uploaded s dest = Some (Archive []) \<and> workers s = [] \<and> received s = []
     \<and> gen_rest s = rs"
  using assms by (simp add: run_defs)

lemma Do_zero_any:
  assumes "concurrency z = 0" and "Do store z fs dest rs sched = Some s"
  shows "inv_idle s \<and> destObj s = dest"
proof -
  have "inv_idle (Do_start z fs dest rs) \<and> destObj (Do_start z fs dest rs) = dest"
    using assms(1) by (simp add: inv_idle_def Do_start_def)
  moreover have "\<And>s a s1. step store s a = Some s1 \<Longrightarrow> inv_idle s \<and> destObj s = dest \<Longrightarrow> inv_idle s1 \<and> destObj s1 = dest"
    subgoal for s a s1
      by (rule conjI, blast intro: inv_idle_step) (erule stepE; simp)
    done
  ultimately show ?thesis
    using assms(2) unfolding Do_def by (rule exec_invariant[rotated])
qed

lemma sum_list_map_update:
  fixes f :: "'a \<Rightarrow> 'b::comm_monoid_add"
  assumes "i < length xs"
  shows "sum_list (map f (xs[i := y])) + f (xs ! i) = sum_list (map f xs) + f y"
  using assms
proof (induction xs arbitrary: i)
  case Nil
  then show ?case by simp
next
  case (Cons x xs)
  show ?case
  proof (cases i)
    case 0
    then show ?thesis by (simp add: ac_simps)
  next
    case (Suc j)
    with Cons.prems have "j < length xs" by simp
    from Cons.IH [OF this] Suc show ?thesis
      by (simp add: ac_simps)
  qed
qed

lemma sum_list_update_same:
  fixes f :: "'a \<Rightarrow> 'b::cancel_comm_monoid_add"
  assumes "i < length xs" and "f (xs ! i) = f y"
  shows "sum_list (map f (xs[i := y])) = sum_list (map f xs)"
  using sum_list_map_update [OF assms(1), of f y] assms(2) by simp

lemma sum_list_update_from0:
  fixes f :: "'a \<Rightarrow> 'b::cancel_comm_monoid_add"
  assumes "i < length xs" and "f (xs ! i) = 0"
  shows "sum_list (map f (xs[i := y])) = sum_list (map f xs) + f y"
  using sum_list_map_update [OF assms(1), of f y] assms(2) by simp

lemma sum_list_update_to0:
  fixes f :: "'a \<Rightarrow> 'b::cancel_comm_monoid_add"
  assumes "i < length xs" and "f y = 0"
  shows "sum_list (map f xs) = sum_list (map f (xs[i := y])) + f (xs ! i)"
  using sum_list_map_update [OF assms(1), of f y] assms(2) by simp

lemma inv_gen_step:
  assumes "step store s a = Some s1" and "inv_gen rs s"
  shows "inv_gen rs s1"
  using assms(1)
  by (rule stepE) (use assms(2) in \<open>auto simp: inv_gen_def\<close>)

lemma inv_merge_step:
  assumes "step store s a = Some s1" and "inv_merge s"
  shows "inv_merge s1"
  using assms(1)
proof (cases rule: stepE)
  case (WorkerEmit w res)
  then show ?thesis using assms(2)
    by (simp add: inv_merge_def sum_list_update_from0)
next
  case (FwdDone w)
  then show ?thesis using assms(2)
    by (simp add: inv_merge_def sum_list_update_same)
next
  case (FwdEmit w res zw)
  from sum_list_update_to0 [OF FwdEmit(2), of fheld FRecv] FwdEmit(3)
  have "sum_list (map fheld (fwds s)) = sum_list (map fheld ((fwds s)[w := FRecv])) + {#res#}"
    by simp
  then show ?thesis using assms(2) FwdEmit
    by (simp add: inv_merge_def)
qed (use assms(2) in \<open>simp_all add: inv_merge_def\<close>)

lemma staged_mono:
  assumes "fs \<subseteq>\<^sub>m fs1" and "staged store fs res"
  shows "staged store fs1 res"
  using assms by (auto simp: staged_def map_le_def dom_def)

lemma zip_ok_mono:
  assumes "fs \<subseteq>\<^sub>m fs1" and "zip_ok fs zw"
  shows "zip_ok fs1 zw"
  using assms by (auto simp: zip_ok_def map_le_def dom_def)

lemma CreateTemp_grows:
  assumes "CreateTemp fs oc pat = Inr (f, fs1)"
  shows "fs \<subseteq>\<^sub>m NewWriter f fs1 \<and> NewWriter f fs1 f = Some (Archive [])"
  using CreateTemp_Inr [OF assms] by (auto simp: map_le_def NewWriter_def)

lemma archive_body_staged:
  assumes "archive_body fs oc zw res = (zw1, None)" and "staged store fs res"
  shows "zw1 = zw\<lparr>deferred := fpath res # deferred zw, entries := entries zw @ [ent store res]\<rparr>"
  using assms
  by (auto simp: archive_body_def addToZip_def staged_def ent_def split: if_splits zip_oc.splits)

lemma inv_fpath_step:
  assumes "step store s a = Some s1" and "inv_fpath s"
  shows "inv_fpath s1"
  using assms(1)
  by (rule stepE)
     (use assms(2) in \<open>auto simp: inv_fpath_def nth_list_update dest: downloadOnDisk_ok split: if_splits\<close>)


lemma downloadOnDisk_staged:
  assumes "downloadOnDisk store fs toc doc res = (fs1, res1, None)"
  shows "staged store fs1 res1 \<and> ent store res1 = ent store res"
proof -
  from downloadOnDisk_ok [OF assms]
  have "fs1 = fs(fpath res1 \<mapsto> Data (store (Object res)))" and "fpath res1 \<noteq> []"
    and r: "res1 = res\<lparr>fpath := fpath res1\<rparr>"
    by simp_all
  moreover from r have "Object res1 = Object res" and "FileName res1 = FileName res"
    by (metis Resource.select_convs(1) Resource.surjective Resource.update_convs(3),
        metis Resource.select_convs(2) Resource.surjective Resource.update_convs(3))
  ultimately show ?thesis by (simp add: staged_def ent_def)
qed

lemma inv_files_step:
  assumes "step store s a = Some s1" and "inv_files store s"
  shows "inv_files store s1"
  using assms(1)
proof (cases rule: stepE)
  case (DownloadFail w toc doc res fs res1 e)
  from downloadOnDisk_grows [OF DownloadFail(4)] have "files s \<subseteq>\<^sub>m fs" by simp
  then show ?thesis using assms(2) DownloadFail
    by (auto simp: inv_files_def nth_list_update intro: staged_mono zip_ok_mono split: if_splits)
next
  case (DownloadOk w toc doc res fs res1)
  from downloadOnDisk_grows [OF DownloadOk(4)] have "files s \<subseteq>\<^sub>m fs" by simp
  moreover from downloadOnDisk_staged [OF DownloadOk(4)] have "staged store fs res1" by simp
  ultimately show ?thesis using assms(2) DownloadOk
    by (auto simp: inv_files_def nth_list_update intro: staged_mono zip_ok_mono split: if_splits)
next
  case (CreateOk toc f fs)
  from CreateTemp_grows [OF CreateOk(3)]
  have "files s \<subseteq>\<^sub>m NewWriter f fs" and "NewWriter f fs f = Some (Archive [])" by simp_all
  then show ?thesis using assms(2) CreateOk
    by (auto simp: inv_files_def zip_ok_def intro: staged_mono)
next
  case (ItemOk oc zw res zw1)
  with assms(2) have "staged store (files s) res" and "zip_ok (files s) zw"
    by (simp_all add: inv_files_def)
  moreover from archive_body_staged [OF ItemOk(3) this(1)]
  have "zw1 = zw\<lparr>deferred := fpath res # deferred zw, entries := entries zw @ [ent store res]\<rparr>" .
  ultimately have "zip_ok (files s) zw1"
    by (auto simp: zip_ok_def staged_def)
  then show ?thesis using assms(2) ItemOk
    by (auto simp: inv_files_def)
qed (use assms(2) in \<open>auto simp: inv_files_def nth_list_update split: if_splits\<close>)

lemma fold_Remove_other:
  assumes "p \<notin> set ps"
  shows "fold Remove ps fs p = fs p"
  using assms by (induction ps arbitrary: fs) (auto simp: Remove_def)

lemma archive_close_ok:
  assumes "archive_close fs ok zw = (fs1, p, None)" and "zip_ok fs zw"
  shows "p = zf zw \<and> fs1 p = Some (Archive (entries zw))"
proof -
  from assms(2) have "zf zw \<notin> set (deferred zw)"
    by (auto simp: zip_ok_def)
  with assms(1) show ?thesis
    by (auto simp: archive_close_def run_deferred_def fold_Remove_other split: if_splits)
qed

lemma upload_ok:
  assumes "upload b fs ok dest p = (b1, None)"
  obtains c where "fs p = Some c" and "b1 = b(dest \<mapsto> c)"
  using assms by (auto simp: upload_def split: option.splits if_splits)

lemma load_step:
  assumes "step store s a = Some s1"
  shows "load store s1 + (case a of FwdEmit w \<Rightarrow> fload store (fwds s ! w) | _ \<Rightarrow> {#}) = load store s"
  using assms
proof (cases rule: stepE)
  case (GenSend w res rest)
  then show ?thesis by (simp add: load_def sum_list_update_from0)
next
  case (DownloadFail w toc doc res fs res1 e)
  from sum_list_update_to0 [OF DownloadFail(2), of "wload store" WClosed] DownloadFail(3)
  have "sum_list (map (wload store) (workers s)) =
        sum_list (map (wload store) ((workers s)[w := WClosed])) + {#ent store res#}"
    by simp
  with DownloadFail show ?thesis by (simp add: load_def)
next
  case (DownloadOk w toc doc res fs res1)
  from downloadOnDisk_staged [OF DownloadOk(4)] have "ent store res1 = ent store res" by simp
  with DownloadOk show ?thesis by (simp add: load_def sum_list_update_same)
next
  case (WorkerExit w)
  then show ?thesis by (simp add: load_def sum_list_update_same)
next
  case (WorkerEmit w res)
  from sum_list_update_to0 [OF WorkerEmit(2), of "wload store" WRecv] WorkerEmit(4)
  have "sum_list (map (wload store) (workers s)) =
        sum_list (map (wload store) ((workers s)[w := WRecv])) + {#ent store res#}"
    by simp
  with WorkerEmit show ?thesis by (simp add: load_def sum_list_update_from0)
next
  case (FwdDone w)
  then show ?thesis by (simp add: load_def sum_list_update_same)
next
  case (FwdEmit w res zw)
  from sum_list_update_to0 [OF FwdEmit(2), of "fload store" FRecv] FwdEmit(3)
  have "sum_list (map (fload store) (fwds s)) =
        sum_list (map (fload store) ((fwds s)[w := FRecv])) + {#ent store res#}"
    by simp
  with FwdEmit show ?thesis by (simp add: load_def)
qed (simp_all add: load_def)

lemma inv_cons_step:
  assumes "step store s a = Some s1" and "inv_cons store rs s" and "inv_files store s"
  shows "inv_cons store rs s1"
  using assms(1)
proof (cases rule: stepE)
  case (GenSend w res rest)
  with load_step [OF assms(1)] have "load store s1 = load store s" by simp
  then show ?thesis using assms(2) GenSend by (simp add: inv_cons_def)
next
  case GenClose
  with load_step [OF assms(1)] have "load store s1 = load store s" by simp
  then show ?thesis using assms(2) GenClose by (simp add: inv_cons_def)
next
  case (DownloadFail w toc doc res fs res1 e)
  with load_step [OF assms(1)] have "load store s1 = load store s" by simp
  moreover from downloadOnDisk_grows [OF DownloadFail(4)] have "files s \<subseteq>\<^sub>m fs" by simp
  then have "fs p = Some c" if "files s p = Some c" for p c
    using that by (auto simp: map_le_def dom_def)
  ultimately show ?thesis using assms(2) DownloadFail by (auto simp: inv_cons_def)
next
  case (DownloadOk w toc doc res fs res1)
  with load_step [OF assms(1)] have "load store s1 = load store s" by simp
  moreover from downloadOnDisk_grows [OF DownloadOk(4)] have "files s \<subseteq>\<^sub>m fs" by simp
  then have "fs p = Some c" if "files s p = Some c" for p c
    using that by (auto simp: map_le_def dom_def)
  ultimately show ?thesis using assms(2) DownloadOk by (auto simp: inv_cons_def)
next
  case (WorkerExit w)
  with load_step [OF assms(1)] have "load store s1 = load store s" by simp
  then show ?thesis using assms(2) WorkerExit by (simp add: inv_cons_def)
next
  case (WorkerEmit w res)
  with load_step [OF assms(1)] have "load store s1 = load store s" by simp
  then show ?thesis using assms(2) WorkerEmit by (simp add: inv_cons_def)
next
  case (FwdDone w)
  with load_step [OF assms(1)] have "load store s1 = load store s" by simp
  then show ?thesis using assms(2) FwdDone by (simp add: inv_cons_def)
next
  case (FwdEmit w res zw)
  with load_step [OF assms(1)] have "load store s = load store s1 + {#ent store res#}" by simp
  then show ?thesis using assms(2) FwdEmit by (auto simp: inv_cons_def ac_simps)
next
  case MergeClose
  with load_step [OF assms(1)] have "load store s1 = load store s" by simp
  then show ?thesis using assms(2) MergeClose by (simp add: inv_cons_def)
next
  case (CreateFail toc e)
  then show ?thesis by (simp add: inv_cons_def)
next
  case (CreateOk toc f fs)
  with load_step [OF assms(1)] have "load store s1 = load store s" by simp
  then show ?thesis using assms(2) CreateOk by (simp add: inv_cons_def)
next
  case (ItemFail oc zw res zw1 e)
  then show ?thesis by (simp add: inv_cons_def)
next
  case (ItemOk oc zw res zw1)
  with load_step [OF assms(1)] have "load store s1 = load store s" by simp
  moreover from assms(3) ItemOk have "staged store (files s) res" by (simp add: inv_files_def)
  from archive_body_staged [OF ItemOk(3) this]
  have "entries zw1 = entries zw @ [ent store res]" by simp
  ultimately show ?thesis using assms(2) ItemOk by (auto simp: inv_cons_def ac_simps)
next
  case (FinishFail ok zw fs p e)
  then show ?thesis by (simp add: inv_cons_def)
next
  case (FinishOk ok zw fs p)
  with load_step [OF assms(1)] have "load store s1 = load store s" by simp
  moreover from assms(3) FinishOk have "zip_ok (files s) zw" by (simp add: inv_files_def)
  from archive_close_ok [OF FinishOk(4) this] have "fs p = Some (Archive (entries zw))" by blast
  ultimately show ?thesis using assms(2) FinishOk by (auto simp: inv_cons_def)
next
  case (UploadFail ok p b e)
  then show ?thesis by (simp add: inv_cons_def)
next
  case (UploadOk ok p b)
  with load_step [OF assms(1)] have "load store s1 = load store s" by simp
  moreover from UploadOk(3) obtain c where "files s p = Some c" and "b = (uploaded s)(destObj s \<mapsto> c)"
    by (rule upload_ok)
  ultimately show ?thesis using assms(2) UploadOk by (auto simp: inv_cons_def)
qed

lemma sum_list_all_zero:
  fixes f :: "'a \<Rightarrow> 'b::comm_monoid_add"
  assumes "\<And>x. x \<in> set xs \<Longrightarrow> f x = 0"
  shows "sum_list (map f xs) = 0"
  using assms by (induction xs) simp_all

lemma sum_list_replicate_zero:
  "sum_list (replicate n (0::'b::comm_monoid_add)) = 0"
  by (induction n) simp_all

lemma inv_run_step:
  assumes "step store s a = Some s1" and "inv_run store rs dest n s"
  shows "inv_run store rs dest n s1"
proof -
  have "destObj s1 = destObj s \<and> length (workers s1) = length (workers s)"
    using assms(1) by (rule stepE) simp_all
  with assms show ?thesis
    unfolding inv_run_def
    by (auto intro: inv_struct_step inv_gen_step inv_merge_step inv_fpath_step inv_files_step
        inv_cons_step)
qed

lemma inv_run_start:
  "inv_run store rs dest (if concurrency z < 0 then 0 else nat (concurrency z)) (Do_start z fs dest rs)"
proof -
  have "load store (Do_start z fs dest rs) = mset (map (ent store) rs)"
    by (simp add: load_def Do_start_def sum_list_replicate_zero [where 'b = "(string \<times> string) multiset", simplified])
  then have "inv_cons store rs (Do_start z fs dest rs)"
    by (simp add: inv_cons_def) (simp add: Do_start_def)
  moreover have "inv_struct (Do_start z fs dest rs)"
    by (auto simp: inv_struct_def Do_start_def)
  moreover have "inv_gen rs (Do_start z fs dest rs)"
    by (simp add: inv_gen_def Do_start_def)
  moreover have "inv_merge (Do_start z fs dest rs)"
    by (simp add: inv_merge_def Do_start_def sum_list_replicate_zero [where 'b = "Resource multiset", simplified])
  moreover have "inv_fpath (Do_start z fs dest rs)"
    by (auto simp: inv_fpath_def Do_start_def)
  moreover have "inv_files store (Do_start z fs dest rs)"
    by (auto simp: inv_files_def Do_start_def)
  ultimately show ?thesis
    by (simp add: inv_run_def) (simp add: Do_start_def)
qed

lemma Do_inv_run:
  assumes "Do store z fs dest rs sched = Some s"
  shows "inv_run store rs dest (if concurrency z < 0 then 0 else nat (concurrency z)) s"
  using assms inv_run_start unfolding Do_def
  by (rule exec_invariant) (rule inv_run_step)

lemma success_terminated:
  assumes "inv_run store rs dest n s" and "loop_ended (main s)" and "failed s = []"
    and "0 < n"
  shows "all_terminated s"
proof -
  from assms(1) have st: "inv_struct s" and len: "length (workers s) = n"
    by (simp_all add: inv_run_def)
  from st assms(2) have oc: "out_closed s" by (simp add: inv_struct_def)
  with st len have fd: "\<forall>w<n. fwds s ! w = FDone" and flen: "length (fwds s) = n"
    by (simp_all add: inv_struct_def)
  with st len have wc: "\<forall>w<n. workers s ! w = WClosed"
    by (simp add: inv_struct_def)
  with assms(4) len have "\<exists>w<length (workers s). workers s ! w = WClosed" by blast
  with st assms(3) have cc: "ch_closed s" by (simp add: inv_struct_def)
  with st have "gen_rest s = []" by (simp add: inv_struct_def)
  with cc oc wc fd len flen show ?thesis
    by (simp add: all_terminated_def list_all_length)
qed

lemma terminated_load:
  assumes "all_terminated s" and "failed s = []"
  shows "load store s = {#}"
proof -
  from assms(1) have "\<And>w. w \<in> set (workers s) \<Longrightarrow> wload store w = {#}"
    and "\<And>f. f \<in> set (fwds s) \<Longrightarrow> fload store f = {#}"
    by (auto simp: all_terminated_def list_all_iff)
  then have "sum_list (map (wload store) (workers s)) = {#}"
    and "sum_list (map (fload store) (fwds s)) = {#}"
    by (simp_all add: sum_list_all_zero)
  with assms show ?thesis by (simp add: load_def all_terminated_def)
qed

lemma success_archive:
  assumes "inv_run store rs dest n s" and "main s = MReturned None" and "failed s = []"
    and "0 < n"
  shows "\<exists>es. uploaded s dest = Some (Archive es) \<and> mset es = mset (map (ent store) rs)"
proof -
  from assms(2) have "loop_ended (main s)" by simp
  from success_terminated [OF assms(1) this assms(3,4)] have "load store s = {#}"
    using assms(3) by (rule terminated_load)
  moreover from assms(1,2) obtain es where "uploaded s dest = Some (Archive es)"
    and "load store s + mset es = mset (map (ent store) rs)"
    by (auto simp: inv_run_def inv_cons_def)
  ultimately show ?thesis by auto
qed

lemma fuel_step:
  assumes "step store s a = Some s1"
  shows "fuel s1 < fuel s"
  using assms
proof (cases rule: stepE)
  case (GenSend w res rest)
  from sum_list_map_update [OF GenSend(3), of wfuel "WGot res"] GenSend(4)
  have "sum_list (map wfuel ((workers s)[w := WGot res])) + 1 = sum_list (map wfuel (workers s)) + 5"
    by simp
  with GenSend show ?thesis by (simp add: fuel_def)
next
  case (DownloadFail w toc doc res fs res1 e)
  from sum_list_map_update [OF DownloadFail(2), of wfuel WClosed] DownloadFail(3)
  have "sum_list (map wfuel ((workers s)[w := WClosed])) + 5 = sum_list (map wfuel (workers s))"
    by simp
  with DownloadFail show ?thesis by (simp add: fuel_def)
next
  case (DownloadOk w toc doc res fs res1)
  from sum_list_map_update [OF DownloadOk(2), of wfuel "WSend res1"] DownloadOk(3)
  have "sum_list (map wfuel ((workers s)[w := WSend res1])) + 5 = sum_list (map wfuel (workers s)) + 4"
    by simp
  with DownloadOk show ?thesis by (simp add: fuel_def)
next
  case (WorkerExit w)
  from sum_list_map_update [OF WorkerExit(2), of wfuel WClosed] WorkerExit(3)
  have "sum_list (map wfuel ((workers s)[w := WClosed])) + 1 = sum_list (map wfuel (workers s))"
    by simp
  with WorkerExit show ?thesis by (simp add: fuel_def)
next
  case (WorkerEmit w res)
  from sum_list_map_update [OF WorkerEmit(2), of wfuel WRecv] WorkerEmit(4)
  have "sum_list (map wfuel ((workers s)[w := WRecv])) + 4 = sum_list (map wfuel (workers s)) + 1"
    by simp
  moreover from sum_list_map_update [OF WorkerEmit(3), of ffuel "FSend res"] WorkerEmit(5)
  have "sum_list (map ffuel ((fwds s)[w := FSend res])) + 1 = sum_list (map ffuel (fwds s)) + 3"
    by simp
  ultimately show ?thesis using WorkerEmit by (simp add: fuel_def)
next
  case (FwdDone w)
  from sum_list_map_update [OF FwdDone(3), of ffuel FDone] FwdDone(5)
  have "sum_list (map ffuel ((fwds s)[w := FDone])) + 1 = sum_list (map ffuel (fwds s))"
    by simp
  with FwdDone show ?thesis by (simp add: fuel_def)
next
  case (FwdEmit w res zw)
  from sum_list_map_update [OF FwdEmit(2), of ffuel FRecv] FwdEmit(3)
  have "sum_list (map ffuel ((fwds s)[w := FRecv])) + 3 = sum_list (map ffuel (fwds s)) + 1"
    by simp
  with FwdEmit show ?thesis by (simp add: fuel_def)
qed (simp_all add: fuel_def)

lemma exec_fuel:
  assumes "exec store s sched = Some s1"
  shows "length sched + fuel s1 \<le> fuel s"
  using assms
proof (induction sched arbitrary: s)
  case Nil
  then show ?case by simp
next
  case (Cons a sched)
  then obtain s2 where a: "step store s a = Some s2" and "exec store s2 sched = Some s1"
    by (auto split: option.splits)
  from Cons.IH [OF this(2)] fuel_step [OF a] show ?case by simp
qed

lemma fresh_name:
  assumes "finite (dom (fs :: fsys))"
  shows "\<exists>rnd. fs (pre @ rnd @ suf) = None"
proof (rule ccontr)
  assume "\<not> (\<exists>rnd. fs (pre @ rnd @ suf) = None)"
  then have "range (\<lambda>rnd. pre @ rnd @ suf) \<subseteq> dom fs"
    by (auto simp: dom_def)
  with assms have "finite (range (\<lambda>rnd. pre @ rnd @ suf))"
    by (rule rev_finite_subset)
  moreover have "inj (\<lambda>rnd. pre @ rnd @ suf)"
    by (simp add: inj_on_def)
  ultimately have "finite (UNIV :: string set)"
    by (rule finite_imageD)
  then show False
    using infinite_UNIV_listI by blast
qed

lemma CreateTemp_fresh:
  assumes "finite (dom fs)" and "CHR ''/'' \<notin> set pat"
  shows "\<exists>rnd f fs1. CreateTemp fs (TmpRnd rnd) pat = Inr (f, fs1)"
proof -
  from assms(2) obtain pre suf where ps: "prefixAndSuffix pat = Inr (pre, suf)"
    by (cases "CHR ''*'' \<in> set pat") (simp_all add: prefixAndSuffix_def Let_def)
  from fresh_name [OF assms(1), of "''/tmp/'' @ pre" suf]
  obtain rnd where "fs (''/tmp/'' @ pre @ rnd @ suf) = None" by auto
  with ps have "CreateTemp fs (TmpRnd rnd) pat
      = Inr (''/tmp/'' @ pre @ rnd @ suf, fs(''/tmp/'' @ pre @ rnd @ suf \<mapsto> Data []))"
    by (simp add: CreateTemp_def Let_def)
  then show ?thesis by blast
qed

lemma downloadOnDisk_fresh:
  assumes "finite (dom fs)" and "CHR ''/'' \<notin> set (FileName res)"
  shows "\<exists>rnd fs1 res1. downloadOnDisk store fs (TmpRnd rnd) DlOk res = (fs1, res1, None)"
proof -
  from assms(2) have "CHR ''/'' \<notin> set (''*.'' @ FileName res)" by simp
  from CreateTemp_fresh [OF assms(1) this]
  obtain rnd f fs1 where "CreateTemp fs (TmpRnd rnd) (''*.'' @ FileName res) = Inr (f, fs1)"
    by blast
  then have "downloadOnDisk store fs (TmpRnd rnd) DlOk res
      = (fs1(f \<mapsto> Data (store (Object res))), res\<lparr>fpath := f\<rparr>, None)"
    by (simp add: downloadOnDisk_def download_def)
  then show ?thesis by blast
qed

lemma archive_body_ZOk:
  assumes "staged store fs res"
  shows "\<exists>zw1. archive_body fs ZOk zw res = (zw1, None)"
  using assms by (simp add: archive_body_def addToZip_def staged_def)

lemma inv_env_step:
  assumes "step store s a = Some s1" and "inv_env s"
  shows "inv_env s1"
  using assms(1)
proof (cases rule: stepE)
  case (DownloadFail w toc doc res fs res1 e)
  from downloadOnDisk_grows [OF DownloadFail(4)] assms(2) have "finite (dom fs)"
    by (simp add: inv_env_def)
  then show ?thesis using assms(2) DownloadFail
    by (auto simp: inv_env_def nth_list_update split: if_splits)
next
  case (DownloadOk w toc doc res fs res1)
  from downloadOnDisk_grows [OF DownloadOk(4)] assms(2) have "finite (dom fs)"
    by (simp add: inv_env_def)
  then show ?thesis using assms(2) DownloadOk
    by (auto simp: inv_env_def nth_list_update split: if_splits)
next
  case (CreateOk toc f fs)
  from CreateTemp_Inr [OF CreateOk(3)] assms(2) have "finite (dom (NewWriter f fs))"
    by (simp add: inv_env_def NewWriter_def)
  then show ?thesis using assms(2) CreateOk
    by (auto simp: inv_env_def)
next
  case (ItemFail oc zw res zw1 e)
  have "finite (dom (fold Remove ps fs))" if "finite (dom fs)" for ps and fs :: fsys
    using that by (induction ps arbitrary: fs) (simp_all add: Remove_def)
  then show ?thesis using assms(2) ItemFail
    by (auto simp: inv_env_def run_deferred_def)
next
  case (FinishFail ok zw fs p e)
  have "finite (dom (fold Remove ps fs))" if "finite (dom fs)" for ps and fs :: fsys
    using that by (induction ps arbitrary: fs) (simp_all add: Remove_def)
  then show ?thesis using assms(2) FinishFail
    by (auto simp: inv_env_def run_deferred_def archive_close_def split: if_splits)
next
  case (FinishOk ok zw fs p)
  have "finite (dom (fold Remove ps fs))" if "finite (dom fs)" for ps and fs :: fsys
    using that by (induction ps arbitrary: fs) (simp_all add: Remove_def)
  then show ?thesis using assms(2) FinishOk
    by (auto simp: inv_env_def run_deferred_def archive_close_def split: if_splits)
qed (use assms(2) in \<open>auto simp: inv_env_def nth_list_update Remove_def split: if_splits\<close>)

lemma running_iff:
  "running m \<or> m = MReturned None \<longleftrightarrow> m \<noteq> MPanic \<and> (\<forall>e. m \<noteq> MReturned (Some e))"
  by (cases m) auto

lemma progress_pipeline:
  assumes inv: "inv_struct s" and env: "inv_env s" and m: "main s = ARecv zw"
    and open_out: "\<not> out_closed s"
  shows "\<exists>a s1. good_step store s a s1"
proof -
  from inv have len: "length (fwds s) = length (workers s)" by (simp add: inv_struct_def)
  show ?thesis
  proof (cases "\<exists>w res. w < length (fwds s) \<and> fwds s ! w = FSend res")
    case True
    then obtain w res where "w < length (fwds s)" and "fwds s ! w = FSend res" by blast
    with m have "good_step store s (FwdEmit w)
        (s\<lparr>fwds := (fwds s)[w := FRecv], main := ABody zw res, merged := merged s @ [(w, res)]\<rparr>)"
      by (simp add: good_step_def fwd_emit_def)
    then show ?thesis by blast
  next
    case nosend: False
    show ?thesis
    proof (cases "\<forall>w < length (fwds s). fwds s ! w = FDone")
      case True
      with open_out m have "good_step store s MergeClose (s\<lparr>out_closed := True\<rparr>)"
        by (simp add: good_step_def merge_close_def list_all_length)
      then show ?thesis by blast
    next
      case False
      then obtain w where w: "w < length (fwds s)" and "fwds s ! w \<noteq> FDone" by blast
      with nosend have fr: "fwds s ! w = FRecv" by (cases "fwds s ! w") auto
      from w len have ww: "w < length (workers s)" by simp
      show ?thesis
      proof (cases "workers s ! w")
        case WRecv
        show ?thesis
        proof (cases "ch_closed s")
          case True
          with WRecv ww m have "good_step store s (WorkerExit w) (s\<lparr>workers := (workers s)[w := WClosed]\<rparr>)"
            by (simp add: good_step_def worker_exit_def)
          then show ?thesis by blast
        next
          case notclosed: False
          show ?thesis
          proof (cases "gen_rest s")
            case Nil
            with notclosed m have "good_step store s GenClose (s\<lparr>ch_closed := True\<rparr>)"
              by (simp add: good_step_def gen_close_def)
            then show ?thesis by blast
          next
            case (Cons res rest)
            with WRecv ww m have "good_step store s (GenSend w)
                (s\<lparr>gen_rest := rest, workers := (workers s)[w := WGot res],
                   received := received s @ [(w, res)]\<rparr>)"
              by (simp add: good_step_def gen_send_def)
            then show ?thesis by blast
          qed
        qed
      next
        case (WGot res)
        with env ww have "finite (dom (files s))" and "CHR ''/'' \<notin> set (FileName res)"
          by (auto simp: inv_env_def)
        from downloadOnDisk_fresh [OF this]
        obtain rnd fs1 res1 where "downloadOnDisk store (files s) (TmpRnd rnd) DlOk res = (fs1, res1, None)"
          by blast
        with WGot ww m have "good_step store s (WorkerDownload w (TmpRnd rnd) DlOk)
            (s\<lparr>workers := (workers s)[w := WSend res1], files := fs1\<rparr>)"
          by (simp add: good_step_def worker_download_def)
        then show ?thesis by blast
      next
        case (WSend res)
        with fr w ww m have "good_step store s (WorkerEmit w)
            (s\<lparr>workers := (workers s)[w := WRecv], fwds := (fwds s)[w := FSend res],
               emitted := emitted s @ [(w, res)]\<rparr>)"
          by (simp add: good_step_def worker_emit_def)
        then show ?thesis by blast
      next
        case WClosed
        with fr w ww m have "good_step store s (FwdDone w) (s\<lparr>fwds := (fwds s)[w := FDone]\<rparr>)"
          by (simp add: good_step_def fwd_done_def)
        then show ?thesis by blast
      qed
    qed
  qed
qed

lemma progress:
  assumes inv: "inv_run store rs dest n s" and env: "inv_env s" and run: "running (main s)"
  shows "\<exists>a s1. good_step store s a s1"
proof (cases "main s")
  case MPanic
  with run show ?thesis by simp
next
  case (MReturned e)
  with run show ?thesis by simp
next
  case MArchive
  from env have "finite (dom (files s))" by (simp add: inv_env_def)
  from CreateTemp_fresh [OF this, of "''*.s3.zip''"]
  obtain rnd f fs1 where "CreateTemp (files s) (TmpRnd rnd) ''*.s3.zip'' = Inr (f, fs1)"
    by auto
  with MArchive have "good_step store s (ArchiveCreate (TmpRnd rnd))
      (s\<lparr>main := ARecv \<lparr>zf = f, entries = [], deferred = []\<rparr>, files := NewWriter f fs1\<rparr>)"
    by (simp add: good_step_def archive_create_def)
  then show ?thesis by blast
next
  case (ARecv zw)
  show ?thesis
  proof (cases "out_closed s")
    case True
    with ARecv have "good_step store s (ArchiveFinish True)
        (s\<lparr>main := MUpload (zf zw),
           files := run_deferred zw ((files s)(zf zw \<mapsto> Archive (entries zw)))\<rparr>)"
      by (simp add: good_step_def archive_finish_def archive_close_def)
    then show ?thesis by blast
  next
    case False
    from inv have "inv_struct s" by (simp add: inv_run_def)
    from progress_pipeline [OF this env ARecv False] show ?thesis .
  qed
next
  case (ABody zw res)
  with inv have "staged store (files s) res" by (simp add: inv_run_def inv_files_def)
  from archive_body_ZOk [OF this] obtain zw1 where "archive_body (files s) ZOk zw res = (zw1, None)"
    by blast
  with ABody have "good_step store s (ArchiveItem ZOk) (s\<lparr>main := ARecv zw1\<rparr>)"
    by (simp add: good_step_def archive_item_def)
  then show ?thesis by blast
next
  case (MUpload p)
  with inv obtain es where "files s p = Some (Archive es)"
    by (auto simp: inv_run_def inv_cons_def)
  with MUpload have "good_step store s (Upload True)
      (s\<lparr>main := MReturned None, files := Remove p (files s),
         uploaded := (uploaded s)(destObj s \<mapsto> Archive es)\<rparr>)"
    by (simp add: good_step_def do_upload_def upload_def)
  then show ?thesis by blast
qed

lemma can_finish:
  assumes "inv_run store rs dest n s" and "inv_env s"
    and "running (main s) \<or> main s = MReturned None"
  shows "\<exists>sched s1. exec store s sched = Some s1 \<and> main s1 = MReturned None \<and> failed s1 = failed s"
  using assms
proof (induction "fuel s" arbitrary: s rule: less_induct)
  case less
  show ?case
  proof (cases "main s = MReturned None")
    case True
    then have "exec store s [] = Some s \<and> main s = MReturned None \<and> failed s = failed s"
      by simp
    then show ?thesis by blast
  next
    case False
    with less.prems(3) have "running (main s)" by simp
    from progress [OF less.prems(1,2) this] obtain a s1 where g: "good_step store s a s1"
      by blast
    then have st: "step store s a = Some s1" and f: "failed s1 = failed s"
      and m: "running (main s1) \<or> main s1 = MReturned None"
      by (simp_all add: good_step_def running_iff)
    from fuel_step [OF st] inv_run_step [OF st less.prems(1)] inv_env_step [OF st less.prems(2)] m
    obtain sched s2 where "exec store s1 sched = Some s2" and "main s2 = MReturned None"
      and "failed s2 = failed s1"
      using less.hyps by blast
    with st f have "exec store s (a # sched) = Some s2 \<and> main s2 = MReturned None \<and> failed s2 = failed s"
      by simp
    then show ?thesis by blast
  qed
qed

lemma gen_blocked_step:
  assumes "step store s a = Some s1" and "gen_blocked s"
  shows "gen_blocked s1 \<and> gen_rest s1 = gen_rest s"
  using assms(1)
  by (rule stepE) (use assms(2) in \<open>auto simp: gen_blocked_def list_all_length\<close>)

lemma gen_blocked_forever:
  assumes "exec store s sched = Some s1" and "gen_blocked s"
  shows "gen_blocked s1 \<and> gen_rest s1 = gen_rest s"
  using assms
proof (induction sched arbitrary: s)
  case Nil
  then show ?case by simp
next
  case (Cons a sched)
  then obtain s2 where a: "step store s a = Some s2" and r: "exec store s2 sched = Some s1"
    by (auto split: option.splits)
  from gen_blocked_step [OF a Cons.prems(2)] Cons.IH [OF r] show ?case by simp
qed

lemma Do_workers:
  assumes "Do store z fs dest rs sched = Some s" and "0 < concurrency z"
  shows "inv_run store rs dest (nat (concurrency z)) s \<and> 0 < nat (concurrency z)"
  using Do_inv_run [OF assms(1)] assms(2) by simp

lemma Do_can_succeed:
  assumes "finite (dom fs)" and "\<And>res. res \<in> set rs \<Longrightarrow> CHR ''/'' \<notin> set (FileName res)"
    and "0 \<le> concurrency z"
  shows "\<exists>sched s. Do store z fs dest rs sched = Some s \<and> main s = MReturned None \<and> failed s = []"
proof -
  let ?s0 = "Do_start z fs dest rs"
  have "inv_env ?s0"
    using assms(1,2) by (auto simp: inv_env_def Do_start_def)
  moreover from assms(3) have "running (main ?s0) \<or> main ?s0 = MReturned None"
    by (simp add: Do_start_def)
  moreover have "failed ?s0 = []"
    by (simp add: Do_start_def)
  ultimately show ?thesis
    using can_finish [OF inv_run_start, of z fs dest rs store] unfolding Do_def
    by simp
qed

lemma entries_of_distinct_paths:
  assumes "mset es = mset (map (ent store) rs)"
  shows "length es = length rs \<and> (distinct (map FileName rs) \<longrightarrow> distinct (map fst es))"
proof -
  from assms have "size (mset es) = size (mset (map (ent store) rs))" by simp
  then have len: "length es = length rs" by simp
  have "mset (map fst es) = image_mset fst (mset es)" by simp
  also have "\<dots> = image_mset fst (mset (map (ent store) rs))" using assms by simp
  also have "\<dots> = mset (map FileName rs)" by (simp add: ent_def image_mset.compositionality comp_def)
  finally have "mset (map fst es) = mset (map FileName rs)" .
  then have "distinct (map fst es) = distinct (map FileName rs)"
    by (rule mset_eq_imp_distinct_iff)
  with len show ?thesis by simp
qed

lemma inv_error_step:
  assumes "step store s a = Some s1" and "inv_error s"
  shows "inv_error s1"
  using assms(1)
  by (rule stepE) (use assms(2) in \<open>auto simp: inv_error_def\<close>)

lemma Do_inv_env:
  assumes "Do store z fs dest rs sched = Some s" and "finite (dom fs)"
    and "\<And>res. res \<in> set rs \<Longrightarrow> CHR ''/'' \<notin> set (FileName res)"
  shows "inv_env s"
proof -
  have "inv_env (Do_start z fs dest rs)"
    using assms(2,3) by (auto simp: inv_env_def Do_start_def)
  with assms(1) show ?thesis
    unfolding Do_def by (rule exec_invariant) (rule inv_env_step)
qed

lemma fuel_start:
  "fuel (Do_start z fs dest rs) \<le> 6 * length rs + 2 * nat (concurrency z) + 7"
proof -
  have "sum_list (map wfuel (replicate n WRecv)) = n" for n
    by (induction n) simp_all
  moreover have "sum_list (map ffuel (replicate n FRecv)) = n" for n
    by (induction n) simp_all
  ultimately show ?thesis
    by (simp add: fuel_def Do_start_def)
qed

lemma wpaths_update_other:
  assumes "w < length ws" and "\<And>res. ws ! w \<noteq> WSend res" and "\<And>res. v \<noteq> WSend res"
  shows "wpaths (ws[w := v]) = wpaths ws"
proof -
  have "(ws[w := v] ! i = WSend res) = (ws ! i = WSend res)" if "i < length ws" for i res
    using that assms by (cases "i = w") simp_all
  then show ?thesis unfolding wpaths_def by auto
qed

lemma wpaths_update_add:
  assumes "w < length ws" and "\<And>res. ws ! w \<noteq> WSend res"
  shows "wpaths (ws[w := WSend r]) = insert (fpath r) (wpaths ws)"
proof -
  have "(ws[w := WSend r] ! i = WSend res) = (i = w \<and> res = r \<or> ws ! i = WSend res)"
    if "i < length ws" for i res
    using that assms by (cases "i = w") auto
  then show ?thesis unfolding wpaths_def using assms(1) by auto blast+
qed

lemma wpaths_update_del:
  assumes "w < length ws" and "ws ! w = WSend r" and "\<And>res. v \<noteq> WSend res"
  shows "insert (fpath r) (wpaths (ws[w := v])) = wpaths ws"
proof -
  have "(ws[w := v] ! i = WSend res) = (i \<noteq> w \<and> ws ! i = WSend res)"
    if "i < length ws" for i res
    using that assms by (cases "i = w") auto
  then have "wpaths (ws[w := v]) = {p. \<exists>i res. i < length ws \<and> i \<noteq> w \<and> ws ! i = WSend res \<and> fpath res = p}"
    unfolding wpaths_def by auto
  moreover have "wpaths ws = insert (fpath r)
      {p. \<exists>i res. i < length ws \<and> i \<noteq> w \<and> ws ! i = WSend res \<and> fpath res = p}"
    unfolding wpaths_def using assms(1,2) by (auto; metis worker.inject(2))
  ultimately show ?thesis by simp
qed

lemma wpaths_closed:
  assumes "\<forall>w<length ws. ws ! w = WClosed"
  shows "wpaths ws = {}"
  using assms by (auto simp: wpaths_def)

lemma fpaths_update_other:
  assumes "w < length fs" and "\<And>res. fs ! w \<noteq> FSend res" and "\<And>res. v \<noteq> FSend res"
  shows "fpaths (fs[w := v]) = fpaths fs"
proof -
  have "(fs[w := v] ! i = FSend res) = (fs ! i = FSend res)" if "i < length fs" for i res
    using that assms by (cases "i = w") simp_all
  then show ?thesis unfolding fpaths_def by auto
qed

lemma fpaths_update_add:
  assumes "w < length fs" and "\<And>res. fs ! w \<noteq> FSend res"
  shows "fpaths (fs[w := FSend r]) = insert (fpath r) (fpaths fs)"
proof -
  have "(fs[w := FSend r] ! i = FSend res) = (i = w \<and> res = r \<or> fs ! i = FSend res)"
    if "i < length fs" for i res
    using that assms by (cases "i = w") auto
  then show ?thesis unfolding fpaths_def using assms(1) by auto blast+
qed

lemma fpaths_update_del:
  assumes "w < length fs" and "fs ! w = FSend r" and "\<And>res. v \<noteq> FSend res"
  shows "insert (fpath r) (fpaths (fs[w := v])) = fpaths fs"
proof -
  have "(fs[w := v] ! i = FSend res) = (i \<noteq> w \<and> fs ! i = FSend res)"
    if "i < length fs" for i res
    using that assms by (cases "i = w") auto
  then have "fpaths (fs[w := v]) = {p. \<exists>i res. i < length fs \<and> i \<noteq> w \<and> fs ! i = FSend res \<and> fpath res = p}"
    unfolding fpaths_def by auto
  moreover have "fpaths fs = insert (fpath r)
      {p. \<exists>i res. i < length fs \<and> i \<noteq> w \<and> fs ! i = FSend res \<and> fpath res = p}"
    unfolding fpaths_def using assms(1,2) by (auto; metis forwarder.inject)
  ultimately show ?thesis by simp
qed

lemma fpaths_done:
  assumes "\<forall>w<length fs. fs ! w = FDone"
  shows "fpaths fs = {}"
  using assms by (auto simp: fpaths_def)

lemma fold_Remove_in:
  assumes "p \<in> set ps"
  shows "fold Remove ps fs p = None"
  using assms
proof (induction ps arbitrary: fs)
  case Nil
  then show ?case by simp
next
  case (Cons q ps)
  show ?case
  proof (cases "p \<in> set ps")
    case True
    with Cons.IH show ?thesis by simp
  next
    case False
    with Cons.prems have "p = q" by simp
    with False show ?thesis by (simp add: fold_Remove_other) (simp add: Remove_def)
  qed
qed

lemma drained_no_paths:
  assumes "inv_struct s" and "out_closed s"
  shows "wpaths (workers s) = {} \<and> fpaths (fwds s) = {}"
proof -
  from assms have "\<forall>w<length (workers s). workers s ! w = WClosed"
    and "\<forall>w<length (fwds s). fwds s ! w = FDone"
    by (simp_all add: inv_struct_def)
  then show ?thesis by (simp add: wpaths_closed fpaths_done)
qed

lemma inv_tidy_step:
  assumes st: "step store s a = Some s1" and t: "inv_tidy fs0 s" and str: "inv_struct s"
    and fl: "inv_files store s"
  shows "inv_tidy fs0 s1"
  using st
proof (cases rule: stepE)
  case (GenSend w res rest)
  then have "live s1 = live s" by (simp add: live_def wpaths_update_other)
  with t GenSend show ?thesis by (simp add: inv_tidy_def)
next
  case GenClose
  then have "live s1 = live s" by (simp add: live_def)
  with t GenClose show ?thesis by (simp add: inv_tidy_def)
next
  case (DownloadFail w toc doc res fs res1 e)
  then show ?thesis by (simp add: inv_tidy_def)
next
  case (DownloadOk w toc doc res fs res1)
  then have L: "live s1 = insert (fpath res1) (live s)"
    by (simp add: live_def wpaths_update_add)
  from downloadOnDisk_ok [OF DownloadOk(4)]
  have new: "files s (fpath res1) = None"
    and fs: "fs = (files s)(fpath res1 \<mapsto> Data (store (Object res)))"
    by simp_all
  show ?thesis
    unfolding inv_tidy_def
  proof (intro impI conjI allI)
    fix p
    assume g: "failed s1 = [] \<and> tidy (main s1)" and p: "p \<in> live s1"
    from g DownloadOk have g0: "failed s = [] \<and> tidy (main s)" by simp
    show "files s1 p \<noteq> None"
      using t g0 p L fs DownloadOk(5) by (auto simp: inv_tidy_def)
    show "fs0 p = None"
      using t g0 p L new by (auto simp: inv_tidy_def) metis
  next
    fix p
    assume g: "failed s1 = [] \<and> tidy (main s1)" and p: "p \<notin> live s1"
    from g DownloadOk have g0: "failed s = [] \<and> tidy (main s)" by simp
    show "files s1 p = fs0 p"
      using t g0 p L fs DownloadOk(5) by (auto simp: inv_tidy_def)
  qed
next
  case (WorkerExit w)
  then have "live s1 = live s" by (simp add: live_def wpaths_update_other)
  with t WorkerExit show ?thesis by (simp add: inv_tidy_def)
next
  case (WorkerEmit w res)
  from wpaths_update_del [OF WorkerEmit(2,4), of WRecv]
  have "insert (fpath res) (wpaths ((workers s)[w := WRecv])) = wpaths (workers s)" by simp
  moreover from fpaths_update_add [OF WorkerEmit(3), of res] WorkerEmit(5)
  have "fpaths ((fwds s)[w := FSend res]) = insert (fpath res) (fpaths (fwds s))" by simp
  ultimately have "live s1 = live s" using WorkerEmit(6) by (auto simp: live_def)
  with t WorkerEmit show ?thesis by (simp add: inv_tidy_def)
next
  case (FwdDone w)
  then have "live s1 = live s" by (simp add: live_def fpaths_update_other)
  with t FwdDone show ?thesis by (simp add: inv_tidy_def)
next
  case (FwdEmit w res zw)
  from fpaths_update_del [OF FwdEmit(2,3), of FRecv]
  have "insert (fpath res) (fpaths ((fwds s)[w := FRecv])) = fpaths (fwds s)" by simp
  then have "live s1 = live s" using FwdEmit by (auto simp: live_def)
  with t FwdEmit show ?thesis by (simp add: inv_tidy_def)
next
  case MergeClose
  then have "live s1 = live s" by (simp add: live_def)
  with t MergeClose show ?thesis by (simp add: inv_tidy_def)
next
  case (CreateFail toc e)
  then show ?thesis by (simp add: inv_tidy_def)
next
  case (CreateOk toc f fs)
  then have L: "live s1 = insert f (live s)" by (simp add: live_def)
  from CreateTemp_Inr [OF CreateOk(3)]
  have new: "files s f = None" and fs: "NewWriter f fs = (files s)(f \<mapsto> Archive [])"
    by (simp_all add: NewWriter_def)
  show ?thesis
    unfolding inv_tidy_def
  proof (intro impI conjI allI)
    fix p
    assume g: "failed s1 = [] \<and> tidy (main s1)" and p: "p \<in> live s1"
    from g CreateOk have g0: "failed s = [] \<and> tidy (main s)" by simp
    show "files s1 p \<noteq> None"
      using t g0 p L fs CreateOk(4) by (auto simp: inv_tidy_def)
    show "fs0 p = None"
      using t g0 p L new by (auto simp: inv_tidy_def) metis
  next
    fix p
    assume g: "failed s1 = [] \<and> tidy (main s1)" and p: "p \<notin> live s1"
    from g CreateOk have g0: "failed s = [] \<and> tidy (main s)" by simp
    show "files s1 p = fs0 p"
      using t g0 p L fs CreateOk(4) by (auto simp: inv_tidy_def)
  qed
next
  case (ItemFail oc zw res zw1 e)
  then show ?thesis by (simp add: inv_tidy_def)
next
  case (ItemOk oc zw res zw1)
  with fl have "staged store (files s) res" by (simp add: inv_files_def)
  from archive_body_staged [OF ItemOk(3) this]
  have "zf zw1 = zf zw" and "deferred zw1 = fpath res # deferred zw" by simp_all
  with ItemOk have "live s1 = live s" by (auto simp: live_def)
  with t ItemOk show ?thesis by (simp add: inv_tidy_def)
next
  case (FinishFail ok zw fs p e)
  then show ?thesis by (simp add: inv_tidy_def)
next
  case (FinishOk ok zw fs p)
  from drained_no_paths [OF str FinishOk(3)]
  have np: "wpaths (workers s) = {}" "fpaths (fwds s) = {}" by simp_all
  with FinishOk have L0: "live s = insert (zf zw) (set (deferred zw))" by (simp add: live_def)
  from fl FinishOk have zok: "zip_ok (files s) zw" by (simp add: inv_files_def)
  then have nz: "zf zw \<notin> set (deferred zw)" by (auto simp: zip_ok_def)
  from FinishOk(4) have p: "p = zf zw"
    and fs: "fs = fold Remove (deferred zw) ((files s)(zf zw \<mapsto> Archive (entries zw)))"
    by (auto simp: archive_close_def run_deferred_def split: if_splits)
  from np FinishOk p have L: "live s1 = {zf zw}" by (simp add: live_def)
  show ?thesis
    unfolding inv_tidy_def
  proof (intro impI conjI allI)
    fix q
    assume g: "failed s1 = [] \<and> tidy (main s1)" and q: "q \<in> live s1"
    from g FinishOk have g0: "failed s = [] \<and> tidy (main s)" by simp
    from q L have "q = zf zw" by simp
    with nz fs FinishOk(5) show "files s1 q \<noteq> None"
      by (simp add: fold_Remove_other)
    from t g0 L0 \<open>q = zf zw\<close> show "fs0 q = None" by (simp add: inv_tidy_def)
  next
    fix q
    assume g: "failed s1 = [] \<and> tidy (main s1)" and q: "q \<notin> live s1"
    from g FinishOk have g0: "failed s = [] \<and> tidy (main s)" by simp
    from q L have ne: "q \<noteq> zf zw" by simp
    show "files s1 q = fs0 q"
    proof (cases "q \<in> set (deferred zw)")
      case True
      with fs FinishOk(5) have "files s1 q = None" by (simp add: fold_Remove_in)
      moreover from t g0 L0 True have "fs0 q = None" by (simp add: inv_tidy_def)
      ultimately show ?thesis by simp
    next
      case False
      with fs ne FinishOk(5) have "files s1 q = files s q" by (simp add: fold_Remove_other)
      moreover from t g0 L0 False ne have "files s q = fs0 q" by (simp add: inv_tidy_def)
      ultimately show ?thesis by simp
    qed
  qed
next
  case (UploadFail ok p b e)
  with str have "out_closed s" by (simp add: inv_struct_def)
  from drained_no_paths [OF str this] UploadFail
  have L0: "live s = {p}" and L: "live s1 = {}" by (simp_all add: live_def)
  with t UploadFail show ?thesis by (auto simp: inv_tidy_def Remove_def)
next
  case (UploadOk ok p b)
  with str have "out_closed s" by (simp add: inv_struct_def)
  from drained_no_paths [OF str this] UploadOk
  have L0: "live s = {p}" and L: "live s1 = {}" by (simp_all add: live_def)
  with t UploadOk show ?thesis by (auto simp: inv_tidy_def Remove_def)
qed

lemma Do_inv_tidy:
  assumes "Do store z fs dest rs sched = Some s"
  shows "inv_tidy fs s"
proof -
  define n where "n = (if concurrency z < 0 then 0 else nat (concurrency z))"
  let ?I = "\<lambda>s. inv_run store rs dest n s \<and> inv_tidy fs s"
  have "wpaths (replicate k WRecv) = {}" and "fpaths (replicate k FRecv) = {}" for k
    by (auto simp: wpaths_def fpaths_def)
  moreover have "wpaths [] = {}" and "fpaths [] = {}"
    by (simp_all add: wpaths_def fpaths_def)
  ultimately have "live (Do_start z fs dest rs) = {}"
    by (simp add: live_def Do_start_def)
  then have "inv_tidy fs (Do_start z fs dest rs)"
    by (simp add: inv_tidy_def) (simp add: Do_start_def)
  with inv_run_start [of store rs dest z fs] have start: "?I (Do_start z fs dest rs)"
    by (simp add: n_def)
  have "?I s1" if st: "step store s a = Some s1" and i: "?I s" for s a s1
  proof -
    from i have r: "inv_run store rs dest n s" and t: "inv_tidy fs s" by simp_all
    from inv_run_step [OF st r] have "inv_run store rs dest n s1" .
    moreover from r have "inv_struct s" and "inv_files store s" by (simp_all add: inv_run_def)
    from inv_tidy_step [OF st t this] have "inv_tidy fs s1" .
    ultimately show ?thesis by simp
  qed
  with assms start have "?I s"
    unfolding Do_def by (rule exec_invariant)
  then show ?thesis by simp
qed

lemma exec_append:
  "exec store s (xs @ ys) = (case exec store s xs of None \<Rightarrow> None | Some s1 \<Rightarrow> exec store s1 ys)"
  by (induction xs arbitrary: s) (simp_all split: option.splits)

lemma step_gen:
  assumes "step store s a = Some s1"
  shows "gen_rest s = (if is_gen_send a then hd (gen_rest s) # gen_rest s1 else gen_rest s1) \<and>
         (ch_closed s1 \<longleftrightarrow> ch_closed s \<or> a = GenClose)"
  using assms by (rule stepE) auto

lemma exec_gen:
  assumes "exec store s sched = Some s1"
  shows "gen_rest s1 = drop (sends sched) (gen_rest s) \<and> sends sched \<le> length (gen_rest s) \<and>
         (ch_closed s1 \<longleftrightarrow> ch_closed s \<or> GenClose \<in> set sched)"
  using assms
proof (induction sched arbitrary: s)
  case Nil
  then show ?case by (simp add: sends_def)
next
  case (Cons a sched)
  then obtain s2 where a: "step store s a = Some s2" and r: "exec store s2 sched = Some s1"
    by (auto split: option.splits)
  from Cons.IH [OF r] have ih: "gen_rest s1 = drop (sends sched) (gen_rest s2)"
    "sends sched \<le> length (gen_rest s2)" "ch_closed s1 \<longleftrightarrow> ch_closed s2 \<or> GenClose \<in> set sched"
    by simp_all
  from step_gen [OF a] have g: "gen_rest s = (if is_gen_send a then hd (gen_rest s) # gen_rest s2 else gen_rest s2)"
    and c: "ch_closed s2 \<longleftrightarrow> ch_closed s \<or> a = GenClose"
    by simp_all
  show ?case
  proof (cases "is_gen_send a")
    case True
    with g have "gen_rest s = hd (gen_rest s) # gen_rest s2" by simp
    then have "drop (Suc (sends sched)) (gen_rest s) = drop (sends sched) (gen_rest s2)"
      and "length (gen_rest s) = Suc (length (gen_rest s2))"
      by (metis drop_Suc_Cons, metis length_Cons)
    with True ih c show ?thesis by (auto simp: sends_def)
  next
    case False
    with g have "gen_rest s = gen_rest s2" by simp
    with False ih c show ?thesis by (auto simp: sends_def)
  qed
qed

lemma Do_gen_send_split:
  assumes "Do store z fs dest rs (pre @ GenSend w # post) = Some s"
  shows "\<exists>s0 s1. Do store z fs dest rs pre = Some s0 \<and> Do store z fs dest rs (pre @ [GenSend w]) = Some s1 \<and>
           sends pre < length rs \<and> w < length (workers s0) \<and> workers s0 ! w = WRecv \<and>
           workers s1 = (workers s0)[w := WGot (rs ! sends pre)]"
proof -
  from assms obtain s0 where p: "exec store (Do_start z fs dest rs) pre = Some s0"
    and r: "exec store s0 (GenSend w # post) = Some s"
    by (auto simp: Do_def exec_append split: option.splits)
  from r obtain s1 where st: "gen_send w s0 = Some s1"
    by (auto split: option.splits)
  from exec_gen [OF p] have g: "gen_rest s0 = drop (sends pre) rs"
    by (simp add: Do_start_def)
  from st obtain res rest where c: "gen_rest s0 = res # rest" and w: "w < length (workers s0)"
    "workers s0 ! w = WRecv" and s1: "workers s1 = (workers s0)[w := WGot res]"
    by (rule gen_sendE) simp
  from g c have d: "drop (sends pre) rs = res # rest" by simp
  then have "rs ! sends pre = res" by (rule nth_via_drop)
  moreover from d have "sends pre < length rs"
    by (metis drop_all list.distinct(1) not_le)
  moreover from p st have "Do store z fs dest rs (pre @ [GenSend w]) = Some s1"
    by (simp add: Do_def exec_append)
  ultimately show ?thesis using p w s1 by (simp add: Do_def)
qed

lemma gen_enabled:
  "(\<forall>w res rest. gen_rest s = res # rest \<and> w < length (workers s) \<and> workers s ! w = WRecv \<longrightarrow>
      (\<exists>s1. step store s (GenSend w) = Some s1 \<and> gen_rest s1 = rest \<and>
            workers s1 = (workers s)[w := WGot res])) \<and>
   (gen_rest s = [] \<and> \<not> ch_closed s \<longrightarrow> (\<exists>s1. step store s GenClose = Some s1 \<and> ch_closed s1))"
  by (simp add: gen_send_def gen_close_def)

lemma merge_stepE [consumes 1, case_names ChanSend ChanClose MergeDone MergeEmit MergeCloseOut]:
  assumes "merge_step m a = Some m1"
    and "\<And>i r rest. a = ChanSend i \<Longrightarrow> i < length (inputs m) \<Longrightarrow> i < length (mfwds m) \<Longrightarrow>
           mfwds m ! i = FRecv \<Longrightarrow> inputs m ! i = r # rest \<Longrightarrow>
           m1 = m\<lparr>inputs := (inputs m)[i := rest], mfwds := (mfwds m)[i := FSend r]\<rparr> \<Longrightarrow> P"
    and "\<And>i. a = ChanClose i \<Longrightarrow> i < length (inputs m) \<Longrightarrow> i < length (in_closed m) \<Longrightarrow>
           inputs m ! i = [] \<Longrightarrow> \<not> in_closed m ! i \<Longrightarrow>
           m1 = m\<lparr>in_closed := (in_closed m)[i := True]\<rparr> \<Longrightarrow> P"
    and "\<And>i. a = MergeDone i \<Longrightarrow> i < length (mfwds m) \<Longrightarrow> i < length (in_closed m) \<Longrightarrow>
           mfwds m ! i = FRecv \<Longrightarrow> in_closed m ! i \<Longrightarrow>
           m1 = m\<lparr>mfwds := (mfwds m)[i := FDone]\<rparr> \<Longrightarrow> P"
    and "\<And>i r. a = MergeEmit i \<Longrightarrow> i < length (mfwds m) \<Longrightarrow> mfwds m ! i = FSend r \<Longrightarrow>
           m1 = m\<lparr>mfwds := (mfwds m)[i := FRecv], outputs := outputs m @ [(i, r)]\<rparr> \<Longrightarrow> P"
    and "a = MergeCloseOut \<Longrightarrow> list_all (\<lambda>f. f = FDone) (mfwds m) \<Longrightarrow> \<not> m_closed m \<Longrightarrow>
           m1 = m\<lparr>m_closed := True\<rparr> \<Longrightarrow> P"
  shows P
proof (cases a)
  case (ChanSend i)
  with assms(1) assms(2) [of i] show ?thesis
    by (auto simp: chan_send_def split: if_splits list.splits)
next
  case (ChanClose i)
  with assms(1) assms(3) [of i] show ?thesis
    by (auto simp: chan_close_def split: if_splits)
next
  case (MergeDone i)
  with assms(1) assms(4) [of i] show ?thesis
    by (auto simp: merge_done_def split: if_splits)
next
  case (MergeEmit i)
  with assms(1) assms(5) [of i] show ?thesis
    by (auto simp: merge_emit_def split: if_splits forwarder.splits)
next
  case MergeCloseOut
  with assms(1) assms(6) show ?thesis
    by (auto simp: merge_close_out_def split: if_splits)
qed

lemma merge_exec_append:
  "merge_exec m (xs @ ys) = (case merge_exec m xs of None \<Rightarrow> None | Some m1 \<Rightarrow> merge_exec m1 ys)"
  by (induction xs arbitrary: m) (simp_all split: option.splits)

lemma merge_exec_invariant:
  assumes "merge_exec m sched = Some m1" and "I m"
    and "\<And>m a m1. merge_step m a = Some m1 \<Longrightarrow> I m \<Longrightarrow> I m1"
  shows "I m1"
  using assms(1,2)
proof (induction sched arbitrary: m)
  case Nil
  then show ?case by simp
next
  case (Cons a sched)
  then show ?case by (auto split: option.splits intro: assms(3))
qed

lemma sent_by_append:
  "sent_by i (xs @ [(j, r)]) = (if j = i then sent_by i xs @ [r] else sent_by i xs)"
  by (simp add: sent_by_def)

lemma mset_concat_update:
  assumes "i < length xss" and "xss ! i = r # rest"
  shows "mset (concat xss) = mset (concat (xss[i := rest])) + {#r#}"
proof -
  from sum_list_map_update [OF assms(1), of mset rest] assms(2)
  have "sum_list (map mset (xss[i := rest])) + ({#r#} + mset rest) = sum_list (map mset xss) + mset rest"
    by simp
  then have "sum_list (map mset (xss[i := rest])) + {#r#} = sum_list (map mset xss)"
    by (simp add: ac_simps)
  then show ?thesis by (simp add: mset_concat)
qed

lemma inv_m_start: "inv_m outs (merge_start outs)"
  by (auto simp: inv_m_def merge_start_def sent_by_def sum_list_replicate_zero
      [where 'b = "Resource multiset", simplified])

lemma inv_m_step:
  assumes "merge_step m a = Some m1" and inv: "inv_m outs m"
  shows "inv_m outs m1"
  using assms(1)
proof (cases rule: merge_stepE)
  case (ChanSend i r rest)
  from inv ChanSend(2) have n: "i < length outs" by (simp add: inv_m_def)
  from sum_list_update_from0 [OF ChanSend(3), of fheld "FSend r"] ChanSend(4)
  have h: "sum_list (map fheld ((mfwds m)[i := FSend r])) = sum_list (map fheld (mfwds m)) + {#r#}"
    by simp
  from mset_concat_update [OF ChanSend(2,5)]
  have c: "mset (concat (inputs m)) = mset (concat ((inputs m)[i := rest])) + {#r#}" .
  from inv have "mset (map snd (outputs m)) + sum_list (map fheld (mfwds m)) + mset (concat (inputs m)) =
       mset (concat outs)" by (simp add: inv_m_def)
  with h c have cons: "mset (map snd (outputs m1)) + sum_list (map fheld (mfwds m1)) + mset (concat (inputs m1)) =
       mset (concat outs)" using ChanSend(6) by (simp add: ac_simps)
  have ord: "sent_by j (outputs m1) @ fitem (mfwds m1 ! j) @ inputs m1 ! j = outs ! j"
    if "j < length outs" for j
  proof (cases "j = i")
    case True
    from inv n have "sent_by i (outputs m) @ fitem (mfwds m ! i) @ inputs m ! i = outs ! i"
      by (simp add: inv_m_def)
    with True ChanSend show ?thesis by simp
  next
    case False
    from inv that have "sent_by j (outputs m) @ fitem (mfwds m ! j) @ inputs m ! j = outs ! j"
      by (simp add: inv_m_def)
    with False ChanSend show ?thesis by simp
  qed
  have cl: "inputs m1 ! j = []" if "j < length outs" "in_closed m1 ! j" for j
  proof -
    from inv that ChanSend(6) have e: "inputs m ! j = []" by (simp add: inv_m_def)
    with ChanSend(5) have "j \<noteq> i" by auto
    with e ChanSend(6) show ?thesis by simp
  qed
  have dn: "in_closed m1 ! j" if "j < length outs" "mfwds m1 ! j = FDone" for j
  proof -
    from that ChanSend(3,6) have "j \<noteq> i" by auto
    with that ChanSend(6) have "mfwds m ! j = FDone" by simp
    with inv that(1) ChanSend(6) show ?thesis by (simp add: inv_m_def)
  qed
  have oc: "mfwds m1 ! j = FDone" if "m_closed m1" "j < length outs" for j
  proof -
    from that ChanSend(6) inv have "mfwds m ! i = FDone" using n by (simp add: inv_m_def)
    with ChanSend(4) show ?thesis by simp
  qed
  from inv ChanSend(6) have "length (inputs m1) = length outs \<and> length (in_closed m1) = length outs \<and>
     length (mfwds m1) = length outs \<and> (\<forall>i r. (i, r) \<in> set (outputs m1) \<longrightarrow> i < length outs)"
    by (simp add: inv_m_def)
  with cons ord cl dn oc show ?thesis unfolding inv_m_def by blast
next
  case (ChanClose i)
  with inv show ?thesis
    by (auto simp: inv_m_def nth_list_update)
next
  case (MergeDone i)
  from sum_list_update_same [OF MergeDone(2), of fheld FDone] MergeDone(4)
  have h: "sum_list (map fheld ((mfwds m)[i := FDone])) = sum_list (map fheld (mfwds m))"
    by simp
  have ord: "sent_by j (outputs m1) @ fitem (mfwds m1 ! j) @ inputs m1 ! j = outs ! j"
    if "j < length outs" for j
  proof -
    from inv that have "sent_by j (outputs m) @ fitem (mfwds m ! j) @ inputs m ! j = outs ! j"
      by (simp add: inv_m_def)
    with MergeDone show ?thesis by (cases "j = i") simp_all
  qed
  have dn: "in_closed m1 ! j" if "j < length outs" "mfwds m1 ! j = FDone" for j
    using that inv MergeDone by (cases "j = i") (simp_all add: inv_m_def)
  have oc: "mfwds m1 ! j = FDone" if "m_closed m1" "j < length outs" for j
    using that inv MergeDone by (cases "j = i") (simp_all add: inv_m_def)
  from inv MergeDone(6) h have "length (inputs m1) = length outs \<and> length (in_closed m1) = length outs \<and>
     length (mfwds m1) = length outs \<and> (\<forall>i r. (i, r) \<in> set (outputs m1) \<longrightarrow> i < length outs) \<and>
     mset (map snd (outputs m1)) + sum_list (map fheld (mfwds m1)) + mset (concat (inputs m1)) =
       mset (concat outs) \<and>
     (\<forall>i<length outs. in_closed m1 ! i \<longrightarrow> inputs m1 ! i = [])"
    by (simp add: inv_m_def)
  with ord dn oc show ?thesis unfolding inv_m_def by blast
next
  case (MergeEmit i r)
  from inv MergeEmit(2) have n: "i < length outs" by (simp add: inv_m_def)
  from sum_list_update_to0 [OF MergeEmit(2), of fheld FRecv] MergeEmit(3)
  have h: "sum_list (map fheld (mfwds m)) = sum_list (map fheld ((mfwds m)[i := FRecv])) + {#r#}"
    by simp
  from inv have "mset (map snd (outputs m)) + sum_list (map fheld (mfwds m)) + mset (concat (inputs m)) =
       mset (concat outs)" by (simp add: inv_m_def)
  with h have cons: "mset (map snd (outputs m1)) + sum_list (map fheld (mfwds m1)) + mset (concat (inputs m1)) =
       mset (concat outs)" using MergeEmit(4) by (simp add: ac_simps)
  have ord: "sent_by j (outputs m1) @ fitem (mfwds m1 ! j) @ inputs m1 ! j = outs ! j"
    if "j < length outs" for j
  proof -
    from inv that have "sent_by j (outputs m) @ fitem (mfwds m ! j) @ inputs m ! j = outs ! j"
      by (simp add: inv_m_def)
    with MergeEmit show ?thesis by (cases "j = i") (simp_all add: sent_by_append)
  qed
  have dn: "in_closed m1 ! j" if "j < length outs" "mfwds m1 ! j = FDone" for j
    using that inv MergeEmit by (cases "j = i") (simp_all add: inv_m_def)
  have oc: "mfwds m1 ! j = FDone" if "m_closed m1" "j < length outs" for j
  proof -
    from that MergeEmit(4) inv have "mfwds m ! i = FDone" using n by (simp add: inv_m_def)
    with MergeEmit(3) show ?thesis by simp
  qed
  from inv MergeEmit(4) n have "length (inputs m1) = length outs \<and> length (in_closed m1) = length outs \<and>
     length (mfwds m1) = length outs \<and> (\<forall>i r. (i, r) \<in> set (outputs m1) \<longrightarrow> i < length outs) \<and>
     (\<forall>i<length outs. in_closed m1 ! i \<longrightarrow> inputs m1 ! i = [])"
    by (auto simp: inv_m_def)
  with cons ord dn oc show ?thesis unfolding inv_m_def by blast
next
  case MergeCloseOut
  with inv show ?thesis
    by (auto simp: inv_m_def list_all_length)
qed

lemma merge_inv_m:
  assumes "merge outs sched = Some m"
  shows "inv_m outs m"
proof -
  from assms have "merge_exec (merge_start outs) sched = Some m" by (simp add: merge_def)
  then show ?thesis
    by (rule merge_exec_invariant) (auto intro: inv_m_start inv_m_step)
qed

lemma fuel_m_step:
  assumes "merge_step m a = Some m1"
  shows "fuel_m m1 < fuel_m m"
  using assms
proof (cases rule: merge_stepE)
  case (ChanSend i r rest)
  from sum_list_map_update [OF ChanSend(2), of "\<lambda>xs. 2 * length xs" rest] ChanSend(5)
  have "sum_list (map (\<lambda>xs. 2 * length xs) ((inputs m)[i := rest])) + 2 =
        sum_list (map (\<lambda>xs. 2 * length xs) (inputs m))"
    by simp
  moreover from sum_list_map_update [OF ChanSend(3), of ffuel_m "FSend r"] ChanSend(4)
  have "sum_list (map ffuel_m ((mfwds m)[i := FSend r])) + 1 = sum_list (map ffuel_m (mfwds m)) + 2"
    by simp
  ultimately show ?thesis using ChanSend(6) by (simp add: fuel_m_def)
next
  case (ChanClose i)
  from sum_list_map_update [OF ChanClose(3), of "\<lambda>b. if b then 0 else (1::nat)" True] ChanClose(5)
  have "sum_list (map (\<lambda>b. if b then 0 else (1::nat)) ((in_closed m)[i := True])) + 1 =
        sum_list (map (\<lambda>b. if b then 0 else 1) (in_closed m))"
    by simp
  then show ?thesis using ChanClose(6) by (simp add: fuel_m_def)
next
  case (MergeDone i)
  from sum_list_map_update [OF MergeDone(2), of ffuel_m FDone] MergeDone(4)
  have "sum_list (map ffuel_m ((mfwds m)[i := FDone])) + 1 = sum_list (map ffuel_m (mfwds m))"
    by simp
  then show ?thesis using MergeDone(6) by (simp add: fuel_m_def)
next
  case (MergeEmit i r)
  from sum_list_map_update [OF MergeEmit(2), of ffuel_m FRecv] MergeEmit(3)
  have "sum_list (map ffuel_m ((mfwds m)[i := FRecv])) + 2 = sum_list (map ffuel_m (mfwds m)) + 1"
    by simp
  then show ?thesis using MergeEmit(4) by (simp add: fuel_m_def)
next
  case MergeCloseOut
  then show ?thesis by (simp add: fuel_m_def)
qed

lemma merge_progress:
  assumes "length (inputs m) = length (mfwds m)" and "length (in_closed m) = length (mfwds m)"
    and "\<not> m_closed m"
  shows "\<exists>a m1. merge_step m a = Some m1"
proof (cases "list_all (\<lambda>f. f = FDone) (mfwds m)")
  case True
  with assms(3) have "merge_step m MergeCloseOut = Some (m\<lparr>m_closed := True\<rparr>)"
    by (simp add: merge_close_out_def)
  then show ?thesis by blast
next
  case False
  then obtain i where i: "i < length (mfwds m)" and nd: "mfwds m ! i \<noteq> FDone"
    by (auto simp: list_all_length)
  show ?thesis
  proof (cases "mfwds m ! i")
    case FDone
    with nd show ?thesis by simp
  next
    case (FSend r)
    with i have "\<exists>m1. merge_step m (MergeEmit i) = Some m1" by (simp add: merge_emit_def)
    then show ?thesis by blast
  next
    case FRecv
    show ?thesis
    proof (cases "inputs m ! i")
      case (Cons r rest)
      with FRecv i assms(1) have "\<exists>m1. merge_step m (ChanSend i) = Some m1"
        by (simp add: chan_send_def)
      then show ?thesis by blast
    next
      case Nil
      show ?thesis
      proof (cases "in_closed m ! i")
        case True
        with FRecv i assms(2) have "\<exists>m1. merge_step m (MergeDone i) = Some m1"
          by (simp add: merge_done_def)
        then show ?thesis by blast
      next
        case False
        with Nil i assms(1,2) have "\<exists>m1. merge_step m (ChanClose i) = Some m1"
          by (simp add: chan_close_def)
        then show ?thesis by blast
      qed
    qed
  qed
qed

lemma merge_can_finish:
  assumes "inv_m outs m"
  shows "\<exists>sched m1. merge_exec m sched = Some m1 \<and> m_closed m1"
  using assms
proof (induction "fuel_m m" arbitrary: m rule: less_induct)
  case less
  show ?case
  proof (cases "m_closed m")
    case True
    then have "merge_exec m [] = Some m \<and> m_closed m" by simp
    then show ?thesis by blast
  next
    case False
    from less.prems have "length (inputs m) = length (mfwds m)" "length (in_closed m) = length (mfwds m)"
      by (simp_all add: inv_m_def)
    from merge_progress [OF this False] obtain a m1 where st: "merge_step m a = Some m1"
      by blast
    from less.hyps [OF fuel_m_step [OF st] inv_m_step [OF st less.prems]]
    obtain sched m2 where "merge_exec m1 sched = Some m2" and "m_closed m2" by blast
    with st have "merge_exec m (a # sched) = Some m2 \<and> m_closed m2" by simp
    then show ?thesis by blast
  qed
qed

lemma Do_worker_emit_split:
  assumes "Do store z fs dest rs (pre @ WorkerEmit w # post) = Some s"
  shows "\<exists>s0 s1 res. Do store z fs dest rs pre = Some s0 \<and>
           Do store z fs dest rs (pre @ [WorkerEmit w]) = Some s1 \<and>
           w < length (fwds s0) \<and> workers s0 ! w = WSend res \<and> fwds s0 ! w = FRecv \<and>
           fwds s1 = (fwds s0)[w := FSend res] \<and> main s1 = main s0 \<and>
          emitted s1 = emitted s0 @ [(w, res)]"
proof -
  from assms obtain s0 where p: "exec store (Do_start z fs dest rs) pre = Some s0"
    and r: "exec store s0 (WorkerEmit w # post) = Some s"
    by (auto simp: Do_def exec_append split: option.splits)
  from r obtain s1 where st: "worker_emit w s0 = Some s1"
    by (auto split: option.splits)
  from st obtain res where "w < length (fwds s0)" "workers s0 ! w = WSend res" "fwds s0 ! w = FRecv"
    "fwds s1 = (fwds s0)[w := FSend res]" "main s1 = main s0"
    "emitted s1 = emitted s0 @ [(w, res)]"
    by (rule worker_emitE) simp
  moreover from p st have "Do store z fs dest rs (pre @ [WorkerEmit w]) = Some s1"
    by (simp add: Do_def exec_append)
  ultimately show ?thesis using p by (simp add: Do_def)
qed

lemma Do_fwd_emit_split:
  assumes "Do store z fs dest rs (pre @ FwdEmit w # post) = Some s"
  shows "\<exists>s0 s1 zw res. Do store z fs dest rs pre = Some s0 \<and>
           Do store z fs dest rs (pre @ [FwdEmit w]) = Some s1 \<and>
           w < length (fwds s0) \<and> fwds s0 ! w = FSend res \<and> main s0 = ARecv zw \<and>
           main s1 = ABody zw res \<and> fwds s1 = (fwds s0)[w := FRecv] \<and>
          merged s1 = merged s0 @ [(w, res)]"
proof -
  from assms obtain s0 where p: "exec store (Do_start z fs dest rs) pre = Some s0"
    and r: "exec store s0 (FwdEmit w # post) = Some s"
    by (auto simp: Do_def exec_append split: option.splits)
  from r obtain s1 where st: "fwd_emit w s0 = Some s1"
    by (auto split: option.splits)
  from st obtain res zw where "w < length (fwds s0)" "fwds s0 ! w = FSend res" "main s0 = ARecv zw"
    "main s1 = ABody zw res" "fwds s1 = (fwds s0)[w := FRecv]"
    "merged s1 = merged s0 @ [(w, res)]"
    by (rule fwd_emitE) simp
  moreover from p st have "Do store z fs dest rs (pre @ [FwdEmit w]) = Some s1"
    by (simp add: Do_def exec_append)
  ultimately show ?thesis using p by (simp add: Do_def)
qed

lemma fwd_enabled:
  "(\<forall>w res. w < length (workers s) \<and> w < length (fwds s) \<and> workers s ! w = WSend res \<and>
       fwds s ! w = FRecv \<longrightarrow>
      (\<exists>s1. step store s (WorkerEmit w) = Some s1 \<and> fwds s1 = (fwds s)[w := FSend res])) \<and>
   (\<forall>w res zw. w < length (fwds s) \<and> fwds s ! w = FSend res \<and> main s = ARecv zw \<longrightarrow>
      (\<exists>s1. step store s (FwdEmit w) = Some s1 \<and> main s1 = ABody zw res \<and>
            fwds s1 = (fwds s)[w := FRecv]))"
  by (simp add: worker_emit_def fwd_emit_def)

lemma merge_closed_all:
  assumes "inv_m outs m" and "m_closed m"
  shows "(\<forall>i<length outs. in_closed m ! i \<and> inputs m ! i = [] \<and> mfwds m ! i = FDone \<and>
            sent_by i (outputs m) = outs ! i) \<and>
         mset (map snd (outputs m)) = mset (concat outs)"
proof -
  from assms have d: "\<forall>i<length outs. mfwds m ! i = FDone" by (simp add: inv_m_def)
  with assms(1) have c: "\<forall>i<length outs. in_closed m ! i" by (simp add: inv_m_def)
  with assms(1) have e: "\<forall>i<length outs. inputs m ! i = []" by (simp add: inv_m_def)
  from assms(1) have len: "length (inputs m) = length outs" "length (mfwds m) = length outs"
    and ord: "\<forall>i<length outs. sent_by i (outputs m) @ fitem (mfwds m ! i) @ inputs m ! i = outs ! i"
    and cons: "mset (map snd (outputs m)) + sum_list (map fheld (mfwds m)) + mset (concat (inputs m)) =
       mset (concat outs)"
    by (simp_all add: inv_m_def)
  from ord d e have s: "\<forall>i<length outs. sent_by i (outputs m) = outs ! i" by simp
  from d len have "\<And>f. f \<in> set (mfwds m) \<Longrightarrow> fheld f = {#}"
    by (auto simp: in_set_conv_nth)
  then have h: "sum_list (map fheld (mfwds m)) = {#}" by (simp add: sum_list_all_zero)
  from e len have "\<And>xs. xs \<in> set (inputs m) \<Longrightarrow> xs = []"
    by (auto simp: in_set_conv_nth)
  then have "concat (inputs m) = []" by simp
  with cons h have "mset (map snd (outputs m)) = mset (concat outs)" by simp
  with c e d s show ?thesis by simp
qed

section \<open>The claims\<close>

subsection \<open>C1: a failed download\<close>

text \<open>
  Claim C1 says that a run in which a download fails makes \<open>Do\<close> return an error tagged
  with the failing source, and uploads no archive. The code drops the error in
  \<open>runDownloadWorker\<close>: with two workers, the download of \<open>b.txt\<close> failing and that of
  \<open>a.txt\<close> succeeding, \<open>Do\<close> returns \<open>nil\<close> and uploads an archive that holds \<open>a.txt\<close>
  alone. The error built by \<open>downloadOnDisk\<close> is seen by the log of the model only.
\<close>

theorem Do_drops_download_error:
  "map_option (\<lambda>s. (main s, uploaded s dest_zip, failed s))
     (Do store_demo (New [WithConcurrency 2]) Map.empty dest_zip [res_a, res_b]
       [GenSend 0, GenSend 1, WorkerDownload 1 (TmpRnd ''1'') (DlErr []),
        WorkerDownload 0 (TmpRnd ''2'') DlOk, GenClose, WorkerEmit 0, WorkerExit 0, FwdDone 1,
        ArchiveCreate (TmpRnd ''3''), FwdEmit 0, ArchiveItem ZOk, FwdDone 0, MergeClose,
        ArchiveFinish True, Upload True])
   = Some (MReturned None, Some (Archive [(''a.txt'', ''bytes of a.txt'')]),
           [(res_b, Wrap ''failed to download'' (Cause ''download''))])"
  by (simp add: run_defs res_a_def res_b_def dest_zip_def store_demo_def numeral_2_eq_2)

subsection \<open>C2: transient files\<close>

text \<open>
  Claim C2 says that every transient file created during a run is deleted by the time
  \<open>Do\<close> returns. When the download into a created file fails, \<open>downloadOnDisk\<close> returns
  without removing it and nothing else knows its path: after the return of \<open>Do\<close> the file
  \<open>/tmp/1.a.txt\<close> is still there, with the bytes written before the failure, while the
  zip's own file is gone.
\<close>

theorem Do_leaves_download_file:
  "map_option (\<lambda>s. (main s, files s ''/tmp/1.a.txt'', files s ''/tmp/2.s3.zip''))
     (Do store_demo (New []) Map.empty dest_zip [res_a]
       [GenSend 0, WorkerDownload 0 (TmpRnd ''1'') (DlErr ''by''), FwdDone 0, MergeClose,
        ArchiveCreate (TmpRnd ''2''), ArchiveFinish True, Upload True])
   = Some (MReturned None, Some (Data ''by''), None)"
  by (simp add: run_defs res_a_def dest_zip_def store_demo_def)

subsection \<open>C3: goroutines after the return of \<open>Do\<close>\<close>

text \<open>
  Claim C3, as amended: with a positive concurrency, in every run in which no download
  fails and the loop of \<open>archive\<close> runs to the close of the merged channel (so that \<open>Do\<close>
  returns \<open>nil\<close>, or the error of closing the zip, or the error of the upload), every
  goroutine \<open>Do\<close> has started has run to its end once that loop has ended, and so when
  \<open>Do\<close> returns: the task source has sent everything and closed its channel, every
  worker has returned, every forwarder is done and the merged channel is closed.
\<close>

theorem Do_unwinds_when_drained:
  assumes "0 < concurrency z" and "Do store z fs dest rs sched = Some s"
    and "loop_ended (main s)" and "failed s = []"
  shows "all_terminated s"
proof -
  from Do_workers [OF assms(2,1)] have "inv_run store rs dest (nat (concurrency z)) s"
    and "0 < nat (concurrency z)" by simp_all
  from success_terminated [OF this(1) assms(3,4) this(2)] show ?thesis .
qed

text \<open>Scenario A, run to its end: nothing is left behind.\<close>

theorem Do_unwinds_when_drained_witness:
  "0 < concurrency (New []) \<and>
   (\<exists>s. Do store_demo (New []) Map.empty dest_zip [res_a]
        [GenSend 0, WorkerDownload 0 (TmpRnd ''1'') DlOk, WorkerEmit 0, ArchiveCreate (TmpRnd ''2''),
         FwdEmit 0, ArchiveItem ZOk, GenClose, WorkerExit 0, FwdDone 0, MergeClose,
         ArchiveFinish True, Upload True] = Some s \<and>
      main s = MReturned None \<and> loop_ended (main s) \<and> failed s = [] \<and> all_terminated s)"
proof -
  have c: "0 < concurrency (New [])" by (simp add: New_def)
  have "\<exists>s. Do store_demo (New []) Map.empty dest_zip [res_a]
        [GenSend 0, WorkerDownload 0 (TmpRnd ''1'') DlOk, WorkerEmit 0, ArchiveCreate (TmpRnd ''2''),
         FwdEmit 0, ArchiveItem ZOk, GenClose, WorkerExit 0, FwdDone 0, MergeClose,
         ArchiveFinish True, Upload True] = Some s \<and>
      main s = MReturned None \<and> failed s = []"
    by (simp add: run_defs res_a_def dest_zip_def store_demo_def)
  then obtain s where run: "Do store_demo (New []) Map.empty dest_zip [res_a]
        [GenSend 0, WorkerDownload 0 (TmpRnd ''1'') DlOk, WorkerEmit 0, ArchiveCreate (TmpRnd ''2''),
         FwdEmit 0, ArchiveItem ZOk, GenClose, WorkerExit 0, FwdDone 0, MergeClose,
         ArchiveFinish True, Upload True] = Some s"
    and m: "main s = MReturned None" and f: "failed s = []"
    by (elim exE conjE)
  from m have le: "loop_ended (main s)" by simp
  from Do_unwinds_when_drained [OF c run le f] have "all_terminated s" .
  with c run m le f show ?thesis by (intro conjI exI [of _ s]) simp_all
qed

text \<open>
  As stated the claim fails. One worker, two resources, the first download failing: the
  worker returns, the merger and \<open>archive\<close> unwind, \<open>Do\<close> uploads an empty archive and
  returns \<open>nil\<close>, while the goroutine of \<open>gen\<close> stands at the send of the second resource
  with no worker left to receive it and its channel never closed (by \<open>gen_blocked_forever\<close>
  no later step changes that).
\<close>

theorem Do_leaves_gen_blocked:
  "map_option (\<lambda>s. (main s, gen_rest s, workers s, ch_closed s, gen_blocked s))
     (Do store_demo (New []) Map.empty dest_zip [res_a, res_b]
       [GenSend 0, WorkerDownload 0 (TmpRnd ''1'') (DlErr []), FwdDone 0, MergeClose,
        ArchiveCreate (TmpRnd ''2''), ArchiveFinish True, Upload True])
   = Some (MReturned None, [res_b], [WClosed], False, True)"
  by (simp add: run_defs gen_blocked_def res_a_def res_b_def dest_zip_def store_demo_def)

subsection \<open>C4: the archive of a run that goes well\<close>

text \<open>
  Claim C4, as amended: with a positive concurrency, whenever \<open>Do\<close> returns \<open>nil\<close> (the archive
  writes and the upload have succeeded) and no download has failed, the destination holds
  an archive whose entries are, up to order, one per resource, named by its archive path
  and holding the bytes of its object; the names are pairwise distinct when the archive
  paths are. Such a run exists from every temporary directory with finitely many files,
  when no archive path contains a path separator.
\<close>

theorem Do_archive_complete:
  assumes "0 < concurrency z"
  shows "(\<forall>sched s. Do store z fs dest rs sched = Some s \<and> main s = MReturned None \<and> failed s = [] \<longrightarrow>
            (\<exists>es. uploaded s dest = Some (Archive es) \<and> mset es = mset (map (ent store) rs) \<and>
                  length es = length rs \<and>
                  (distinct (map FileName rs) \<longrightarrow> distinct (map fst es)))) \<and>
         (finite (dom fs) \<and> (\<forall>res. res \<in> set rs \<longrightarrow> CHR ''/'' \<notin> set (FileName res)) \<longrightarrow>
            (\<exists>sched s. Do store z fs dest rs sched = Some s \<and> main s = MReturned None \<and> failed s = []))"
proof (intro conjI allI impI)
  fix sched s
  assume run: "Do store z fs dest rs sched = Some s \<and> main s = MReturned None \<and> failed s = []"
  with Do_workers [of store z fs dest rs sched s] assms
  have "inv_run store rs dest (nat (concurrency z)) s" and "0 < nat (concurrency z)"
    by simp_all
  from success_archive [OF this(1) _ _ this(2)] run
  obtain es where "uploaded s dest = Some (Archive es)" and "mset es = mset (map (ent store) rs)"
    by blast
  with entries_of_distinct_paths [OF this(2)]
  show "\<exists>es. uploaded s dest = Some (Archive es) \<and> mset es = mset (map (ent store) rs) \<and>
             length es = length rs \<and> (distinct (map FileName rs) \<longrightarrow> distinct (map fst es))"
    by blast
next
  assume "finite (dom fs) \<and> (\<forall>res. res \<in> set rs \<longrightarrow> CHR ''/'' \<notin> set (FileName res))"
  with assms Do_can_succeed [of fs rs z store dest]
  show "\<exists>sched s. Do store z fs dest rs sched = Some s \<and> main s = MReturned None \<and> failed s = []"
    by simp
qed

text \<open>Scenario A of the specification, run to its end.\<close>

theorem Do_archive_complete_witness:
  "0 < concurrency (New []) \<and>
   (\<exists>s es. Do store_demo (New []) Map.empty dest_zip [res_a]
        [GenSend 0, WorkerDownload 0 (TmpRnd ''1'') DlOk, WorkerEmit 0, ArchiveCreate (TmpRnd ''2''),
         FwdEmit 0, ArchiveItem ZOk, GenClose, WorkerExit 0, FwdDone 0, MergeClose,
         ArchiveFinish True, Upload True] = Some s \<and>
      main s = MReturned None \<and> failed s = [] \<and>
      uploaded s dest_zip = Some (Archive es) \<and> mset es = mset (map (ent store_demo) [res_a]) \<and>
      es = [(''a.txt'', ''bytes of a.txt'')])"
proof -
  have c: "0 < concurrency (New [])" by (simp add: New_def)
  have "\<exists>s. Do store_demo (New []) Map.empty dest_zip [res_a]
        [GenSend 0, WorkerDownload 0 (TmpRnd ''1'') DlOk, WorkerEmit 0, ArchiveCreate (TmpRnd ''2''),
         FwdEmit 0, ArchiveItem ZOk, GenClose, WorkerExit 0, FwdDone 0, MergeClose,
         ArchiveFinish True, Upload True] = Some s \<and>
      main s = MReturned None \<and> failed s = [] \<and>
      uploaded s dest_zip = Some (Archive [(''a.txt'', ''bytes of a.txt'')])"
    by (simp add: run_defs res_a_def dest_zip_def store_demo_def)
  then obtain s where run: "Do store_demo (New []) Map.empty dest_zip [res_a]
        [GenSend 0, WorkerDownload 0 (TmpRnd ''1'') DlOk, WorkerEmit 0, ArchiveCreate (TmpRnd ''2''),
         FwdEmit 0, ArchiveItem ZOk, GenClose, WorkerExit 0, FwdDone 0, MergeClose,
         ArchiveFinish True, Upload True] = Some s" "main s = MReturned None" "failed s = []"
    and up: "uploaded s dest_zip = Some (Archive [(''a.txt'', ''bytes of a.txt'')])"
    by blast
  from Do_archive_complete [OF c, of store_demo Map.empty dest_zip "[res_a]"] run
  obtain es where "uploaded s dest_zip = Some (Archive es)"
    and "mset es = mset (map (ent store_demo) [res_a])"
    by blast
  with up run c show ?thesis by auto
qed

text \<open>
  Without the positive concurrency the claim fails. With concurrency 0 no worker and no
  forwarder is started, the closer of \<open>merge\<close> closes the merged channel at once, and
  \<open>Do\<close> uploads an archive without entries and returns \<open>nil\<close>, although the resources
  list is not empty, its archive paths are distinct, and nothing has failed.
\<close>

theorem Do_archive_empty_at_zero:
  "\<exists>s. Do store_demo (New [WithConcurrency 0]) Map.empty dest_zip [res_a]
        [ArchiveCreate (TmpRnd ''1''), MergeClose, ArchiveFinish True, Upload True] = Some s \<and>
      main s = MReturned None \<and> failed s = [] \<and> gen_rest s = [res_a] \<and>
      [res_a] \<noteq> [] \<and> distinct (map FileName [res_a]) \<and>
      uploaded s dest_zip = Some (Archive []) \<and>
      mset [] \<noteq> mset (map (ent store_demo) [res_a])"
  by (simp add: run_defs res_a_def dest_zip_def store_demo_def)

subsection \<open>C5: resources without a file\<close>

text \<open>
  Claim C5, as amended: the loop of \<open>archive\<close> skips an item whose \<open>fpath\<close> is empty: the
  item adds no entry, defers no removal and raises no error, and the loop goes on. In a
  run of \<open>Do\<close> no such item reaches \<open>archive\<close>: every item received from the merged channel
  carries a non-empty \<open>fpath\<close>, set by \<open>downloadOnDisk\<close> to the name of the file it created.
\<close>

theorem archive_skips_empty_fpath:
  "(fpath res = [] \<longrightarrow> archive_body fs1 oc zw res = (zw, None)) \<and>
   (\<forall>sched s. Do store z fs dest rs sched = Some s \<longrightarrow>
      (\<forall>zw1 res1. main s = ABody zw1 res1 \<longrightarrow> fpath res1 \<noteq> []) \<and>
      (\<forall>w res1. (w, res1) \<in> set (merged s) \<longrightarrow> fpath res1 \<noteq> []))"
proof (intro conjI allI impI)
  assume "fpath res = []"
  then show "archive_body fs1 oc zw res = (zw, None)" by (simp add: archive_body_def)
next
  fix sched s zw1 res1
  assume "Do store z fs dest rs sched = Some s" and "main s = ABody zw1 res1"
  with Do_inv_run [of store z fs dest rs sched s] show "fpath res1 \<noteq> []"
    by (simp add: inv_run_def inv_fpath_def)
next
  fix sched s w res1
  assume "Do store z fs dest rs sched = Some s" and "(w, res1) \<in> set (merged s)"
  with Do_inv_run [of store z fs dest rs sched s] show "fpath res1 \<noteq> []"
    by (auto simp: inv_run_def inv_fpath_def)
qed

text \<open>
  A resource as callers build it, skipped by the loop body; and scenario A up to the loop
  body of \<open>archive\<close>, which holds the staged resource.
\<close>

theorem archive_skips_empty_fpath_witness:
  "fpath res_a = [] \<and>
   archive_body Map.empty ZOk \<lparr>zf = ''/tmp/2.s3.zip'', entries = [], deferred = []\<rparr> res_a
     = (\<lparr>zf = ''/tmp/2.s3.zip'', entries = [], deferred = []\<rparr>, None) \<and>
   (\<exists>s zw1 res1. Do store_demo (New []) Map.empty dest_zip [res_a]
        [GenSend 0, WorkerDownload 0 (TmpRnd ''1'') DlOk, WorkerEmit 0, ArchiveCreate (TmpRnd ''2''),
         FwdEmit 0] = Some s \<and>
      main s = ABody zw1 res1 \<and> fpath res1 = ''/tmp/1.a.txt'' \<and> fpath res1 \<noteq> [])"
proof -
  have e: "fpath res_a = []" by (simp add: res_a_def)
  have "\<exists>s zw1 res1. Do store_demo (New []) Map.empty dest_zip [res_a]
        [GenSend 0, WorkerDownload 0 (TmpRnd ''1'') DlOk, WorkerEmit 0, ArchiveCreate (TmpRnd ''2''),
         FwdEmit 0] = Some s \<and>
      main s = ABody zw1 res1 \<and> fpath res1 = ''/tmp/1.a.txt''"
    by (simp add: run_defs res_a_def dest_zip_def store_demo_def)
  then obtain s zw1 res1 where run: "Do store_demo (New []) Map.empty dest_zip [res_a]
        [GenSend 0, WorkerDownload 0 (TmpRnd ''1'') DlOk, WorkerEmit 0, ArchiveCreate (TmpRnd ''2''),
         FwdEmit 0] = Some s"
    and m: "main s = ABody zw1 res1" and p: "fpath res1 = ''/tmp/1.a.txt''"
    by (elim exE conjE)
  note inst = archive_skips_empty_fpath [of res_a Map.empty ZOk
      "\<lparr>zf = ''/tmp/2.s3.zip'', entries = [], deferred = []\<rparr>" store_demo "New []" Map.empty dest_zip "[res_a]"]
  from inst e have skip: "archive_body Map.empty ZOk \<lparr>zf = ''/tmp/2.s3.zip'', entries = [], deferred = []\<rparr> res_a
     = (\<lparr>zf = ''/tmp/2.s3.zip'', entries = [], deferred = []\<rparr>, None)"
    by (elim conjE) simp
  note in_run = inst [THEN conjunct2, rule_format, OF run]
  from in_run [THEN conjunct1, rule_format, OF m] have "fpath res1 \<noteq> []" .
  with skip show ?thesis using e run m p
    by (intro conjI exI [of _ s] exI [of _ zw1] exI [of _ res1]) simp_all
qed

text \<open>
  As stated the claim fails for the Archive Builder: \<open>archive\<close>, given a queue that
  delivers one resource without a file, skips it and returns the path of a zip with zero
  entries and no error: a successful no-op.
\<close>

theorem archive_skips_silently:
  "(case archive Map.empty (TmpRnd ''1'') True [(res_a, ZOk)] of
      (fs, p, e) \<Rightarrow> (p, e, fs p)) = (''/tmp/1.s3.zip'', None, Some (Archive []))"
  by (simp add: archive_def run_defs res_a_def)

subsection \<open>C6: the task source\<close>

text \<open>
  Claim C6: in every run of \<open>Do\<close>, with any number of workers, \<open>gen\<close> yields each
  descriptor exactly once, in input order, and then signals exhaustion. After \<open>k\<close> sends
  what \<open>gen\<close> has still to send is the resources list without its first \<open>k\<close> items, and
  those \<open>k\<close> items are what the workers have received, in that order. The send number
  \<open>k\<close> hands the item number \<open>k\<close> of the list to one worker that stood at its receive, and
  to none of the others. The channel is closed only after the last send. \<open>gen\<close> is never
  the one to hold things up: it sends as soon as a worker receives and closes as soon as
  nothing is left. And when no archive path has a path separator and the temporary
  directory holds finitely many files, a run exists in which every descriptor has been
  sent and the channel is closed.
\<close>

theorem gen_yields_in_order:
  assumes "Do store z fs dest rs sched = Some s"
  shows "gen_rest s = drop (sends sched) rs \<and> sends sched \<le> length rs \<and>
    map snd (received s) = take (sends sched) rs \<and>
    (\<forall>w res. (w, res) \<in> set (received s) \<longrightarrow> w < length (workers s)) \<and>
    (ch_closed s \<longleftrightarrow> GenClose \<in> set sched) \<and>
    (ch_closed s \<longrightarrow> sends sched = length rs \<and> gen_rest s = []) \<and>
    (\<forall>pre w post. sched = pre @ GenSend w # post \<longrightarrow>
       (\<exists>s0 s1. Do store z fs dest rs pre = Some s0 \<and>
          Do store z fs dest rs (pre @ [GenSend w]) = Some s1 \<and>
          sends pre < length rs \<and> w < length (workers s0) \<and> workers s0 ! w = WRecv \<and>
          workers s1 = (workers s0)[w := WGot (rs ! sends pre)])) \<and>
    (\<forall>w res rest. gen_rest s = res # rest \<and> w < length (workers s) \<and> workers s ! w = WRecv \<longrightarrow>
       (\<exists>s1. step store s (GenSend w) = Some s1 \<and> gen_rest s1 = rest \<and>
             workers s1 = (workers s)[w := WGot res])) \<and>
    (gen_rest s = [] \<and> \<not> ch_closed s \<longrightarrow> (\<exists>s1. step store s GenClose = Some s1 \<and> ch_closed s1)) \<and>
    (0 < concurrency z \<and> finite (dom fs) \<and> (\<forall>res. res \<in> set rs \<longrightarrow> CHR ''/'' \<notin> set (FileName res)) \<longrightarrow>
       (\<exists>sched1 s1. Do store z fs dest rs sched1 = Some s1 \<and> ch_closed s1 \<and> gen_rest s1 = [] \<and>
          sends sched1 = length rs))"
proof -
  from assms have "exec store (Do_start z fs dest rs) sched = Some s" by (simp add: Do_def)
  from exec_gen [OF this] have rest: "gen_rest s = drop (sends sched) rs"
    and le: "sends sched \<le> length rs" and cl: "ch_closed s \<longleftrightarrow> GenClose \<in> set sched"
    by (simp_all add: Do_start_def)
  from Do_inv_run [OF assms] have ig: "inv_gen rs s" by (simp add: inv_run_def)
  then have "map snd (received s) @ drop (sends sched) rs = take (sends sched) rs @ drop (sends sched) rs"
    using rest by (simp add: inv_gen_def)
  then have rec: "map snd (received s) = take (sends sched) rs" by (simp only: append_same_eq)
  have all: "sends sched = length rs \<and> gen_rest s = []" if "ch_closed s"
  proof -
    from ig that have "gen_rest s = []" by (simp add: inv_gen_def)
    with rest le show ?thesis by simp
  qed
  have split: "\<exists>s0 s1. Do store z fs dest rs pre = Some s0 \<and>
          Do store z fs dest rs (pre @ [GenSend w]) = Some s1 \<and>
          sends pre < length rs \<and> w < length (workers s0) \<and> workers s0 ! w = WRecv \<and>
          workers s1 = (workers s0)[w := WGot (rs ! sends pre)]"
    if "sched = pre @ GenSend w # post" for pre w post
  proof -
    from assms that have "Do store z fs dest rs (pre @ GenSend w # post) = Some s" by simp
    from Do_gen_send_split [OF this] show ?thesis .
  qed
  have full: "\<exists>sched1 s1. Do store z fs dest rs sched1 = Some s1 \<and> ch_closed s1 \<and> gen_rest s1 = [] \<and>
          sends sched1 = length rs"
    if env: "0 < concurrency z \<and> finite (dom fs) \<and> (\<forall>res. res \<in> set rs \<longrightarrow> CHR ''/'' \<notin> set (FileName res))"
  proof -
    from env Do_can_succeed [of fs rs z store dest]
    obtain sched1 s1 where run: "Do store z fs dest rs sched1 = Some s1"
      and m: "main s1 = MReturned None" and f: "failed s1 = []"
      by auto
    from env Do_workers [OF run] have "inv_run store rs dest (nat (concurrency z)) s1"
      and "0 < nat (concurrency z)" by simp_all
    from success_terminated [OF this(1) _ f this(2)] m have "ch_closed s1" and g: "gen_rest s1 = []"
      by (simp_all add: all_terminated_def)
    moreover from run have "exec store (Do_start z fs dest rs) sched1 = Some s1" by (simp add: Do_def)
    from exec_gen [OF this] g have "sends sched1 = length rs"
      by (simp add: Do_start_def)
    ultimately show ?thesis using run by blast
  qed
  from ig have own: "\<forall>w res. (w, res) \<in> set (received s) \<longrightarrow> w < length (workers s)"
    by (auto simp: inv_gen_def)
  from rest le rec own cl all split full gen_enabled [of s store] show ?thesis
    by (intro conjI allI impI) blast+
qed

text \<open>
  Two workers and two resources. The second worker takes the first resource, the first
  worker the second, then the channel is closed; after one send the next one is enabled,
  after two the close is; and a run that sends both and closes exists.
\<close>

theorem gen_yields_in_order_witness:
  "(\<exists>s. Do store_demo (New [WithConcurrency 2]) Map.empty dest_zip [res_a, res_b]
          [GenSend 1, GenSend 0, GenClose] = Some s \<and>
        ch_closed s \<and> gen_rest s = [] \<and> map snd (received s) = [res_a, res_b] \<and>
        workers s = [WGot res_b, WGot res_a]) \<and>
   (\<exists>s0 s1. Do store_demo (New [WithConcurrency 2]) Map.empty dest_zip [res_a, res_b]
          [GenSend 1] = Some s0 \<and>
        Do store_demo (New [WithConcurrency 2]) Map.empty dest_zip [res_a, res_b]
          [GenSend 1, GenSend 0] = Some s1 \<and>
        workers s0 = [WRecv, WGot res_a] \<and> workers s1 = [WGot res_b, WGot res_a]) \<and>
   (\<exists>s0 s1. Do store_demo (New [WithConcurrency 2]) Map.empty dest_zip [res_a, res_b]
          [GenSend 1] = Some s0 \<and> gen_rest s0 = [res_b] \<and>
        step store_demo s0 (GenSend 0) = Some s1 \<and> gen_rest s1 = [] \<and>
        workers s1 = [WGot res_b, WGot res_a]) \<and>
   (\<exists>s0 s1. Do store_demo (New [WithConcurrency 2]) Map.empty dest_zip [res_a, res_b]
          [GenSend 1, GenSend 0] = Some s0 \<and> \<not> ch_closed s0 \<and>
        step store_demo s0 GenClose = Some s1 \<and> ch_closed s1) \<and>
   (\<exists>sched1 s1. Do store_demo (New [WithConcurrency 2]) Map.empty dest_zip [res_a, res_b]
          sched1 = Some s1 \<and> ch_closed s1 \<and> gen_rest s1 = [] \<and> sends sched1 = 2)"
proof -
  have k: "sends [GenSend 1, GenSend 0, GenClose] = 2" "sends [GenSend 1] = 1"
    "sends [GenSend 1, GenSend 0] = 2"
    by (simp_all add: sends_def)
  have "\<exists>s. Do store_demo (New [WithConcurrency 2]) Map.empty dest_zip [res_a, res_b]
          [GenSend 1, GenSend 0, GenClose] = Some s \<and> workers s = [WGot res_b, WGot res_a]"
    by (simp add: run_defs numeral_2_eq_2)
  then obtain s where run: "Do store_demo (New [WithConcurrency 2]) Map.empty dest_zip [res_a, res_b]
          [GenSend 1, GenSend 0, GenClose] = Some s"
    and ws: "workers s = [WGot res_b, WGot res_a]"
    by (elim exE conjE)
  note t = gen_yields_in_order [OF run]
  from t [THEN conjunct1] k have g: "gen_rest s = []" by simp
  from t [THEN conjunct2, THEN conjunct2, THEN conjunct1] k
  have r: "map snd (received s) = [res_a, res_b]" by simp
  from t [THEN conjunct2, THEN conjunct2, THEN conjunct2, THEN conjunct2, THEN conjunct1]
  have c: "ch_closed s" by simp
  from run c g r ws have p1: "\<exists>s. Do store_demo (New [WithConcurrency 2]) Map.empty dest_zip [res_a, res_b]
          [GenSend 1, GenSend 0, GenClose] = Some s \<and>
        ch_closed s \<and> gen_rest s = [] \<and> map snd (received s) = [res_a, res_b] \<and>
        workers s = [WGot res_b, WGot res_a]"
    by (intro exI [of _ s]) simp
  have "\<exists>s0. Do store_demo (New [WithConcurrency 2]) Map.empty dest_zip [res_a, res_b]
          [GenSend 1] = Some s0 \<and> workers s0 = [WRecv, WGot res_a]"
    by (simp add: run_defs numeral_2_eq_2)
  then obtain s0 where run0: "Do store_demo (New [WithConcurrency 2]) Map.empty dest_zip [res_a, res_b]
          [GenSend 1] = Some s0"
    and ws0: "workers s0 = [WRecv, WGot res_a]"
    by (elim exE conjE)
  from t [THEN conjunct2, THEN conjunct2, THEN conjunct2, THEN conjunct2, THEN conjunct2,
      THEN conjunct2, THEN conjunct1, rule_format, of "[GenSend 1]" 0 "[GenClose]"]
  obtain s0' s1 where a: "Do store_demo (New [WithConcurrency 2]) Map.empty dest_zip [res_a, res_b]
          [GenSend 1] = Some s0'"
    and b: "Do store_demo (New [WithConcurrency 2]) Map.empty dest_zip [res_a, res_b]
          ([GenSend 1] @ [GenSend 0]) = Some s1"
    and w1: "workers s1 = (workers s0')[0 := WGot ([res_a, res_b] ! sends [GenSend 1])]"
    by auto
  from a run0 have "s0' = s0" by simp
  with w1 ws0 k have ws1: "workers s1 = [WGot res_b, WGot res_a]" by simp
  from run0 b ws0 ws1 have p2: "\<exists>s0 s1. Do store_demo (New [WithConcurrency 2]) Map.empty dest_zip [res_a, res_b]
          [GenSend 1] = Some s0 \<and>
        Do store_demo (New [WithConcurrency 2]) Map.empty dest_zip [res_a, res_b]
          [GenSend 1, GenSend 0] = Some s1 \<and>
        workers s0 = [WRecv, WGot res_a] \<and> workers s1 = [WGot res_b, WGot res_a]"
    by (intro exI [of _ s0] exI [of _ s1]) simp
  note t0 = gen_yields_in_order [OF run0]
  from t0 [THEN conjunct1] k have g0: "gen_rest s0 = [res_b]" by simp
  from t0 [THEN conjunct2, THEN conjunct2, THEN conjunct2, THEN conjunct2, THEN conjunct2,
      THEN conjunct2, THEN conjunct2, THEN conjunct1, rule_format, of res_b "[]" 0] g0 ws0
  obtain s2 where st: "step store_demo s0 (GenSend 0) = Some s2" and g2: "gen_rest s2 = []"
    and ws2: "workers s2 = (workers s0)[0 := WGot res_b]"
    by auto
  from ws2 ws0 have "workers s2 = [WGot res_b, WGot res_a]" by simp
  with run0 g0 st g2 have p3: "\<exists>s0 s1. Do store_demo (New [WithConcurrency 2]) Map.empty dest_zip [res_a, res_b]
          [GenSend 1] = Some s0 \<and> gen_rest s0 = [res_b] \<and>
        step store_demo s0 (GenSend 0) = Some s1 \<and> gen_rest s1 = [] \<and>
        workers s1 = [WGot res_b, WGot res_a]"
    by (intro exI [of _ s0] exI [of _ s2]) simp
  from b have run1: "Do store_demo (New [WithConcurrency 2]) Map.empty dest_zip [res_a, res_b]
          [GenSend 1, GenSend 0] = Some s1" by simp
  note t1 = gen_yields_in_order [OF run1]
  from t1 [THEN conjunct1] k have g1: "gen_rest s1 = []" by simp
  from t1 [THEN conjunct2, THEN conjunct2, THEN conjunct2, THEN conjunct2, THEN conjunct1]
  have c1: "\<not> ch_closed s1" by simp
  from t1 [THEN conjunct2, THEN conjunct2, THEN conjunct2, THEN conjunct2, THEN conjunct2,
      THEN conjunct2, THEN conjunct2, THEN conjunct2, THEN conjunct1] g1 c1
  obtain s3 where st3: "step store_demo s1 GenClose = Some s3" and c3: "ch_closed s3"
    by auto
  from run1 c1 st3 c3 have p4: "\<exists>s0 s1. Do store_demo (New [WithConcurrency 2]) Map.empty dest_zip [res_a, res_b]
          [GenSend 1, GenSend 0] = Some s0 \<and> \<not> ch_closed s0 \<and>
        step store_demo s0 GenClose = Some s1 \<and> ch_closed s1"
    by (intro exI [of _ s1] exI [of _ s3]) simp
  have env: "0 < concurrency (New [WithConcurrency 2]) \<and> finite (dom (Map.empty :: string \<rightharpoonup> content)) \<and>
    (\<forall>res. res \<in> set [res_a, res_b] \<longrightarrow> CHR ''/'' \<notin> set (FileName res))"
    by (simp add: New_def WithConcurrency_def res_a_def res_b_def)
  from t [THEN conjunct2, THEN conjunct2, THEN conjunct2, THEN conjunct2, THEN conjunct2,
      THEN conjunct2, THEN conjunct2, THEN conjunct2, THEN conjunct2, rule_format, OF env]
  have p5: "\<exists>sched1 s1. Do store_demo (New [WithConcurrency 2]) Map.empty dest_zip [res_a, res_b]
          sched1 = Some s1 \<and> ch_closed s1 \<and> gen_rest s1 = [] \<and> sends sched1 = 2"
    by (simp add: numeral_2_eq_2)
  from p1 p2 p3 p4 p5 show ?thesis by (intro conjI)
qed

subsection \<open>C7: the fan-in merger\<close>

text \<open>
  Claim C7, for \<open>merge\<close> on its own, with any channels carrying any sequences, and for
  \<open>merge\<close> inside \<open>Do\<close>.

  On its own: what forwarder \<open>i\<close> has sent on \<open>out\<close>, then the item it holds, then what
  is still to be sent on channel \<open>i\<close>, is the sequence of channel \<open>i\<close>; so the items
  received from \<open>out\<close> are an interleaving of the sequences as far as they have been
  forwarded, and with the items held and those still to be sent they are, as a multiset,
  the union of the sequences: nothing is dropped or duplicated. \<open>out\<close> is closed only
  when every channel is closed and empty and every forwarder is done, and then the items
  received from \<open>out\<close> are exactly the union of the sequences. From every state of a run,
  the run can go on until \<open>out\<close> is closed.

  Inside \<open>Do\<close>: the items \<open>archive\<close> has received together with the items the forwarders
  hold are, as a multiset, the items the workers have sent; the merged channel is closed
  only when every worker has closed its channel and every forwarder is done. A send of a
  worker puts the worker's item into its forwarder, a send of a forwarder puts the
  forwarder's item into the loop of \<open>archive\<close>, and both are enabled as soon as the two
  sides stand at the channel.
\<close>

theorem merge_no_loss:
  assumes "merge outs msched = Some m" and "Do store z fs dest rs sched = Some s"
  shows "length (inputs m) = length outs \<and> length (mfwds m) = length outs \<and>
    (\<forall>i<length outs. sent_by i (outputs m) @ fitem (mfwds m ! i) @ inputs m ! i = outs ! i) \<and>
    (\<forall>i r. (i, r) \<in> set (outputs m) \<longrightarrow> i < length outs) \<and>
    mset (map snd (outputs m)) + sum_list (map fheld (mfwds m)) + mset (concat (inputs m)) =
      mset (concat outs) \<and>
    (m_closed m \<longrightarrow>
       (\<forall>i<length outs. in_closed m ! i \<and> inputs m ! i = [] \<and> mfwds m ! i = FDone \<and>
          sent_by i (outputs m) = outs ! i) \<and>
       mset (map snd (outputs m)) = mset (concat outs)) \<and>
    (\<exists>sched1 m1. merge outs (msched @ sched1) = Some m1 \<and> m_closed m1 \<and>
       mset (map snd (outputs m1)) = mset (concat outs)) \<and>
    mset (map snd (merged s)) + sum_list (map fheld (fwds s)) = mset (map snd (emitted s)) \<and>
    (out_closed s \<longrightarrow>
       list_all (\<lambda>w. w = WClosed) (workers s) \<and> list_all (\<lambda>f. f = FDone) (fwds s) \<and>
       mset (map snd (merged s)) = mset (map snd (emitted s))) \<and>
    (\<forall>pre w post. sched = pre @ WorkerEmit w # post \<longrightarrow>
       (\<exists>s0 s1 res. Do store z fs dest rs pre = Some s0 \<and>
          Do store z fs dest rs (pre @ [WorkerEmit w]) = Some s1 \<and>
          w < length (fwds s0) \<and> workers s0 ! w = WSend res \<and> fwds s0 ! w = FRecv \<and>
          fwds s1 = (fwds s0)[w := FSend res] \<and> main s1 = main s0 \<and>
          emitted s1 = emitted s0 @ [(w, res)])) \<and>
    (\<forall>pre w post. sched = pre @ FwdEmit w # post \<longrightarrow>
       (\<exists>s0 s1 zw res. Do store z fs dest rs pre = Some s0 \<and>
          Do store z fs dest rs (pre @ [FwdEmit w]) = Some s1 \<and>
          w < length (fwds s0) \<and> fwds s0 ! w = FSend res \<and> main s0 = ARecv zw \<and>
          main s1 = ABody zw res \<and> fwds s1 = (fwds s0)[w := FRecv] \<and>
          merged s1 = merged s0 @ [(w, res)])) \<and>
    (\<forall>w res. w < length (workers s) \<and> w < length (fwds s) \<and> workers s ! w = WSend res \<and>
         fwds s ! w = FRecv \<longrightarrow>
       (\<exists>s1. step store s (WorkerEmit w) = Some s1 \<and> fwds s1 = (fwds s)[w := FSend res])) \<and>
    (\<forall>w res zw. w < length (fwds s) \<and> fwds s ! w = FSend res \<and> main s = ARecv zw \<longrightarrow>
       (\<exists>s1. step store s (FwdEmit w) = Some s1 \<and> main s1 = ABody zw res \<and>
             fwds s1 = (fwds s)[w := FRecv]))"
proof -
  from merge_inv_m [OF assms(1)] have inv: "inv_m outs m" .
  then have len: "length (inputs m) = length outs" "length (mfwds m) = length outs"
    and ord: "\<forall>i<length outs. sent_by i (outputs m) @ fitem (mfwds m ! i) @ inputs m ! i = outs ! i"
    and own: "\<forall>i r. (i, r) \<in> set (outputs m) \<longrightarrow> i < length outs"
    and cons: "mset (map snd (outputs m)) + sum_list (map fheld (mfwds m)) + mset (concat (inputs m)) =
       mset (concat outs)"
    by (simp_all add: inv_m_def)
  have closed: "(\<forall>i<length outs. in_closed m ! i \<and> inputs m ! i = [] \<and> mfwds m ! i = FDone \<and>
          sent_by i (outputs m) = outs ! i) \<and>
       mset (map snd (outputs m)) = mset (concat outs)" if "m_closed m"
    using inv that by (rule merge_closed_all)
  have fin: "\<exists>sched1 m1. merge outs (msched @ sched1) = Some m1 \<and> m_closed m1 \<and>
       mset (map snd (outputs m1)) = mset (concat outs)"
  proof -
    from merge_can_finish [OF inv] obtain sched1 m1 where r: "merge_exec m sched1 = Some m1"
      and c: "m_closed m1" by blast
    from assms(1) r have run: "merge outs (msched @ sched1) = Some m1"
      by (simp add: merge_def merge_exec_append)
    from merge_closed_all [OF merge_inv_m [OF run] c] run c show ?thesis by blast
  qed
  from Do_inv_run [OF assms(2)] have im: "inv_merge s" and st: "inv_struct s"
    by (simp_all add: inv_run_def)
  from im have eq: "mset (map snd (merged s)) + sum_list (map fheld (fwds s)) = mset (map snd (emitted s))"
    by (simp add: inv_merge_def)
  have oc: "list_all (\<lambda>w. w = WClosed) (workers s) \<and> list_all (\<lambda>f. f = FDone) (fwds s) \<and>
        mset (map snd (merged s)) = mset (map snd (emitted s))" if "out_closed s"
  proof -
    from st that have l: "length (fwds s) = length (workers s)"
      and fd: "\<forall>w<length (workers s). fwds s ! w = FDone"
      and wc: "\<forall>w<length (workers s). workers s ! w = WClosed"
      by (simp_all add: inv_struct_def)
    from fd l have "\<And>f. f \<in> set (fwds s) \<Longrightarrow> fheld f = {#}"
      by (auto simp: in_set_conv_nth)
    then have "sum_list (map fheld (fwds s)) = {#}" by (simp add: sum_list_all_zero)
    with eq l fd wc show ?thesis by (simp add: list_all_length)
  qed
  have we: "\<exists>s0 s1 res. Do store z fs dest rs pre = Some s0 \<and>
          Do store z fs dest rs (pre @ [WorkerEmit w]) = Some s1 \<and>
          w < length (fwds s0) \<and> workers s0 ! w = WSend res \<and> fwds s0 ! w = FRecv \<and>
          fwds s1 = (fwds s0)[w := FSend res] \<and> main s1 = main s0 \<and>
          emitted s1 = emitted s0 @ [(w, res)]"
    if "sched = pre @ WorkerEmit w # post" for pre w post
  proof -
    from assms(2) that have "Do store z fs dest rs (pre @ WorkerEmit w # post) = Some s" by simp
    from Do_worker_emit_split [OF this] show ?thesis .
  qed
  have fe: "\<exists>s0 s1 zw res. Do store z fs dest rs pre = Some s0 \<and>
          Do store z fs dest rs (pre @ [FwdEmit w]) = Some s1 \<and>
          w < length (fwds s0) \<and> fwds s0 ! w = FSend res \<and> main s0 = ARecv zw \<and>
          main s1 = ABody zw res \<and> fwds s1 = (fwds s0)[w := FRecv] \<and>
          merged s1 = merged s0 @ [(w, res)]"
    if "sched = pre @ FwdEmit w # post" for pre w post
  proof -
    from assms(2) that have "Do store z fs dest rs (pre @ FwdEmit w # post) = Some s" by simp
    from Do_fwd_emit_split [OF this] show ?thesis .
  qed
  from len ord own cons closed fin eq oc we fe fwd_enabled [of s store] show ?thesis
    by (intro conjI allI impI) blast+
qed

text \<open>
  Three channels, the second one without items: the item of the third channel is
  forwarded first, then the two of the first channel in their order, and \<open>out\<close> is
  closed after the three channels. And a run of \<open>Do\<close> with two workers, where the item
  of the second worker reaches \<open>archive\<close> first.
\<close>

theorem merge_no_loss_witness:
  "(\<exists>m. merge [[res_a, res_b], [], [res_baz]]
          [ChanSend 2, ChanSend 0, MergeEmit 2, MergeEmit 0, ChanSend 0, ChanClose 1, MergeDone 1,
           MergeEmit 0, ChanClose 0, ChanClose 2, MergeDone 0, MergeDone 2, MergeCloseOut] = Some m \<and>
        m_closed m \<and> map snd (outputs m) = [res_baz, res_a, res_b] \<and>
        sent_by 0 (outputs m) = [res_a, res_b] \<and> sent_by 2 (outputs m) = [res_baz] \<and>
        mset (map snd (outputs m)) = mset (concat [[res_a, res_b], [], [res_baz]])) \<and>
   (\<exists>s. Do store_demo (New [WithConcurrency 2]) Map.empty dest_zip [res_a, res_b]
        [GenSend 0, GenSend 1, WorkerDownload 1 (TmpRnd ''1'') DlOk, WorkerDownload 0 (TmpRnd ''2'') DlOk,
         WorkerEmit 1, WorkerEmit 0, ArchiveCreate (TmpRnd ''3''), FwdEmit 1, ArchiveItem ZOk,
         FwdEmit 0, ArchiveItem ZOk, GenClose, WorkerExit 0, WorkerExit 1, FwdDone 0, FwdDone 1,
         MergeClose] = Some s \<and>
      out_closed s \<and>
      map (fpath \<circ> snd) (emitted s) = [''/tmp/1.b.txt'', ''/tmp/2.a.txt''] \<and>
      mset (map snd (merged s)) = mset (map snd (emitted s)) \<and>
      list_all (\<lambda>w. w = WClosed) (workers s)) \<and>
   (\<exists>s0 s1 zw res. Do store_demo (New [WithConcurrency 2]) Map.empty dest_zip [res_a, res_b]
        [GenSend 0, GenSend 1, WorkerDownload 1 (TmpRnd ''1'') DlOk, WorkerDownload 0 (TmpRnd ''2'') DlOk,
         WorkerEmit 1, WorkerEmit 0, ArchiveCreate (TmpRnd ''3'')] = Some s0 \<and>
      Do store_demo (New [WithConcurrency 2]) Map.empty dest_zip [res_a, res_b]
        [GenSend 0, GenSend 1, WorkerDownload 1 (TmpRnd ''1'') DlOk, WorkerDownload 0 (TmpRnd ''2'') DlOk,
         WorkerEmit 1, WorkerEmit 0, ArchiveCreate (TmpRnd ''3''), FwdEmit 1] = Some s1 \<and>
      fwds s0 ! 1 = FSend res \<and> main s0 = ARecv zw \<and> main s1 = ABody zw res \<and>
      fpath res = ''/tmp/1.b.txt'' \<and> FileName res = ''b.txt'')"
proof -
  have "\<exists>m. merge [[res_a, res_b], [], [res_baz]]
          [ChanSend 2, ChanSend 0, MergeEmit 2, MergeEmit 0, ChanSend 0, ChanClose 1, MergeDone 1,
           MergeEmit 0, ChanClose 0, ChanClose 2, MergeDone 0, MergeDone 2, MergeCloseOut] = Some m \<and>
        m_closed m \<and> outputs m = [(2, res_baz), (0, res_a), (0, res_b)]"
    by (simp add: merge_def merge_start_def chan_send_def chan_close_def merge_done_def
        merge_emit_def merge_close_out_def)
  then obtain m where mrun: "merge [[res_a, res_b], [], [res_baz]]
          [ChanSend 2, ChanSend 0, MergeEmit 2, MergeEmit 0, ChanSend 0, ChanClose 1, MergeDone 1,
           MergeEmit 0, ChanClose 0, ChanClose 2, MergeDone 0, MergeDone 2, MergeCloseOut] = Some m"
    and mc: "m_closed m" and mo: "outputs m = [(2, res_baz), (0, res_a), (0, res_b)]"
    by (elim exE conjE)
  have "\<exists>s. Do store_demo (New [WithConcurrency 2]) Map.empty dest_zip [res_a, res_b]
        [GenSend 0, GenSend 1, WorkerDownload 1 (TmpRnd ''1'') DlOk, WorkerDownload 0 (TmpRnd ''2'') DlOk,
         WorkerEmit 1, WorkerEmit 0, ArchiveCreate (TmpRnd ''3''), FwdEmit 1, ArchiveItem ZOk,
         FwdEmit 0, ArchiveItem ZOk, GenClose, WorkerExit 0, WorkerExit 1, FwdDone 0, FwdDone 1,
         MergeClose] = Some s \<and>
      out_closed s \<and>
      map (fpath \<circ> snd) (emitted s) = [''/tmp/1.b.txt'', ''/tmp/2.a.txt'']"
    by (simp add: run_defs res_a_def res_b_def dest_zip_def store_demo_def numeral_2_eq_2)
  then obtain s where run: "Do store_demo (New [WithConcurrency 2]) Map.empty dest_zip [res_a, res_b]
        [GenSend 0, GenSend 1, WorkerDownload 1 (TmpRnd ''1'') DlOk, WorkerDownload 0 (TmpRnd ''2'') DlOk,
         WorkerEmit 1, WorkerEmit 0, ArchiveCreate (TmpRnd ''3''), FwdEmit 1, ArchiveItem ZOk,
         FwdEmit 0, ArchiveItem ZOk, GenClose, WorkerExit 0, WorkerExit 1, FwdDone 0, FwdDone 1,
         MergeClose] = Some s"
    and obs: "out_closed s"
      "map (fpath \<circ> snd) (emitted s) = [''/tmp/1.b.txt'', ''/tmp/2.a.txt'']"
    by (elim exE conjE)
  note t = merge_no_loss [OF mrun run]
  note t6 = t [THEN conjunct2, THEN conjunct2, THEN conjunct2, THEN conjunct2, THEN conjunct2]
  from t6 [THEN conjunct1, rule_format, OF mc]
  have all: "\<forall>i<length [[res_a, res_b], [], [res_baz]].
       in_closed m ! i \<and> inputs m ! i = [] \<and> mfwds m ! i = FDone \<and>
       sent_by i (outputs m) = [[res_a, res_b], [], [res_baz]] ! i"
    and ms: "mset (map snd (outputs m)) = mset (concat [[res_a, res_b], [], [res_baz]])"
    by (rule conjunct1, rule conjunct2)
  from all [rule_format, of 0] have s0: "sent_by 0 (outputs m) = [res_a, res_b]" by simp
  from all [rule_format, of 2] have s2: "sent_by 2 (outputs m) = [res_baz]" by simp
  from mo have "map snd (outputs m) = [res_baz, res_a, res_b]" by simp
  with mrun mc s0 s2 ms have p1: "\<exists>m. merge [[res_a, res_b], [], [res_baz]]
          [ChanSend 2, ChanSend 0, MergeEmit 2, MergeEmit 0, ChanSend 0, ChanClose 1, MergeDone 1,
           MergeEmit 0, ChanClose 0, ChanClose 2, MergeDone 0, MergeDone 2, MergeCloseOut] = Some m \<and>
        m_closed m \<and> map snd (outputs m) = [res_baz, res_a, res_b] \<and>
        sent_by 0 (outputs m) = [res_a, res_b] \<and> sent_by 2 (outputs m) = [res_baz] \<and>
        mset (map snd (outputs m)) = mset (concat [[res_a, res_b], [], [res_baz]])"
    by (intro exI [of _ m] conjI)
  note t9 = t6 [THEN conjunct2, THEN conjunct2, THEN conjunct2]
  from t9 [THEN conjunct1, rule_format, OF obs(1)]
  have "list_all (\<lambda>w. w = WClosed) (workers s)"
    and "mset (map snd (merged s)) = mset (map snd (emitted s))"
    by (rule conjunct1, rule conjunct2 [THEN conjunct2])
  with run obs have p2: "\<exists>s. Do store_demo (New [WithConcurrency 2]) Map.empty dest_zip [res_a, res_b]
        [GenSend 0, GenSend 1, WorkerDownload 1 (TmpRnd ''1'') DlOk, WorkerDownload 0 (TmpRnd ''2'') DlOk,
         WorkerEmit 1, WorkerEmit 0, ArchiveCreate (TmpRnd ''3''), FwdEmit 1, ArchiveItem ZOk,
         FwdEmit 0, ArchiveItem ZOk, GenClose, WorkerExit 0, WorkerExit 1, FwdDone 0, FwdDone 1,
         MergeClose] = Some s \<and>
      out_closed s \<and>
      map (fpath \<circ> snd) (emitted s) = [''/tmp/1.b.txt'', ''/tmp/2.a.txt''] \<and>
      mset (map snd (merged s)) = mset (map snd (emitted s)) \<and>
      list_all (\<lambda>w. w = WClosed) (workers s)"
    by (intro exI [of _ s] conjI)
  have sp: "[GenSend 0, GenSend 1, WorkerDownload 1 (TmpRnd ''1'') DlOk, WorkerDownload 0 (TmpRnd ''2'') DlOk,
         WorkerEmit 1, WorkerEmit 0, ArchiveCreate (TmpRnd ''3''), FwdEmit 1, ArchiveItem ZOk,
         FwdEmit 0, ArchiveItem ZOk, GenClose, WorkerExit 0, WorkerExit 1, FwdDone 0, FwdDone 1,
         MergeClose] =
       [GenSend 0, GenSend 1, WorkerDownload 1 (TmpRnd ''1'') DlOk, WorkerDownload 0 (TmpRnd ''2'') DlOk,
         WorkerEmit 1, WorkerEmit 0, ArchiveCreate (TmpRnd ''3'')] @ FwdEmit 1 #
       [ArchiveItem ZOk, FwdEmit 0, ArchiveItem ZOk, GenClose, WorkerExit 0, WorkerExit 1,
         FwdDone 0, FwdDone 1, MergeClose]"
    by simp
  from t9 [THEN conjunct2, THEN conjunct2, THEN conjunct1, rule_format, OF sp]
  obtain s0 s1 zw res where a: "Do store_demo (New [WithConcurrency 2]) Map.empty dest_zip [res_a, res_b]
        [GenSend 0, GenSend 1, WorkerDownload 1 (TmpRnd ''1'') DlOk, WorkerDownload 0 (TmpRnd ''2'') DlOk,
         WorkerEmit 1, WorkerEmit 0, ArchiveCreate (TmpRnd ''3'')] = Some s0"
    and b: "Do store_demo (New [WithConcurrency 2]) Map.empty dest_zip [res_a, res_b]
        ([GenSend 0, GenSend 1, WorkerDownload 1 (TmpRnd ''1'') DlOk, WorkerDownload 0 (TmpRnd ''2'') DlOk,
         WorkerEmit 1, WorkerEmit 0, ArchiveCreate (TmpRnd ''3'')] @ [FwdEmit 1]) = Some s1"
    and c: "fwds s0 ! 1 = FSend res" "main s0 = ARecv zw" "main s1 = ABody zw res"
    by (elim exE conjE)
  have "\<exists>s0. Do store_demo (New [WithConcurrency 2]) Map.empty dest_zip [res_a, res_b]
        [GenSend 0, GenSend 1, WorkerDownload 1 (TmpRnd ''1'') DlOk, WorkerDownload 0 (TmpRnd ''2'') DlOk,
         WorkerEmit 1, WorkerEmit 0, ArchiveCreate (TmpRnd ''3'')] = Some s0 \<and>
       (\<exists>r. fwds s0 ! 1 = FSend r \<and> fpath r = ''/tmp/1.b.txt'' \<and> FileName r = ''b.txt'')"
    by (simp add: run_defs res_a_def res_b_def dest_zip_def store_demo_def numeral_2_eq_2)
  with a c(1) have "fpath res = ''/tmp/1.b.txt'' \<and> FileName res = ''b.txt''" by auto
  with a b c have p3: "\<exists>s0 s1 zw res. Do store_demo (New [WithConcurrency 2]) Map.empty dest_zip [res_a, res_b]
        [GenSend 0, GenSend 1, WorkerDownload 1 (TmpRnd ''1'') DlOk, WorkerDownload 0 (TmpRnd ''2'') DlOk,
         WorkerEmit 1, WorkerEmit 0, ArchiveCreate (TmpRnd ''3'')] = Some s0 \<and>
      Do store_demo (New [WithConcurrency 2]) Map.empty dest_zip [res_a, res_b]
        [GenSend 0, GenSend 1, WorkerDownload 1 (TmpRnd ''1'') DlOk, WorkerDownload 0 (TmpRnd ''2'') DlOk,
         WorkerEmit 1, WorkerEmit 0, ArchiveCreate (TmpRnd ''3''), FwdEmit 1] = Some s1 \<and>
      fwds s0 ! 1 = FSend res \<and> main s0 = ARecv zw \<and> main s1 = ABody zw res \<and>
      fpath res = ''/tmp/1.b.txt'' \<and> FileName res = ''b.txt''"
    by (intro exI [of _ s0] exI [of _ s1] exI [of _ zw] exI [of _ res]) simp
  from p1 p2 p3 show ?thesis by (intro conjI)
qed

subsection \<open>C8: the concurrency does not change the entries\<close>

text \<open>
  Claim C8: for one input and two positive concurrency values, two runs of \<open>Do\<close> in
  which no download fails and \<open>Do\<close> returns \<open>nil\<close> upload archives with the same entries
  (names and contents, each as often in one as in the other); only their order may differ.
\<close>

theorem Do_concurrency_independent:
  assumes "0 < concurrency z1" and "0 < concurrency z2"
    and "Do store z1 fs1 dest rs sched1 = Some s1" and "main s1 = MReturned None" and "failed s1 = []"
    and "Do store z2 fs2 dest rs sched2 = Some s2" and "main s2 = MReturned None" and "failed s2 = []"
  shows "\<exists>es1 es2. uploaded s1 dest = Some (Archive es1) \<and> uploaded s2 dest = Some (Archive es2) \<and>
           mset es1 = mset es2 \<and> set es1 = set es2"
proof -
  from Do_workers [OF assms(3,1)] have "inv_run store rs dest (nat (concurrency z1)) s1"
    and "0 < nat (concurrency z1)" by simp_all
  from success_archive [OF this(1) assms(4,5) this(2)]
  obtain es1 where e1: "uploaded s1 dest = Some (Archive es1)" "mset es1 = mset (map (ent store) rs)"
    by blast
  from Do_workers [OF assms(6,2)] have "inv_run store rs dest (nat (concurrency z2)) s2"
    and "0 < nat (concurrency z2)" by simp_all
  from success_archive [OF this(1) assms(7,8) this(2)]
  obtain es2 where e2: "uploaded s2 dest = Some (Archive es2)" "mset es2 = mset (map (ent store) rs)"
    by blast
  from e1(2) e2(2) have "mset es1 = mset es2" by simp
  moreover from this have "set es1 = set es2" by (rule mset_eq_setD)
  ultimately show ?thesis using e1(1) e2(1) by blast
qed

text \<open>
  Two resources with concurrency 1 and with concurrency 2: the second run archives
  \<open>b.txt\<close> before \<open>a.txt\<close>.
\<close>

theorem Do_concurrency_independent_witness:
  "0 < concurrency (New []) \<and> 0 < concurrency (New [WithConcurrency 2]) \<and>
   (\<exists>s1 s2 es1 es2.
      Do store_demo (New []) Map.empty dest_zip [res_a, res_b]
        [GenSend 0, WorkerDownload 0 (TmpRnd ''1'') DlOk, WorkerEmit 0, ArchiveCreate (TmpRnd ''2''),
         FwdEmit 0, ArchiveItem ZOk, GenSend 0, WorkerDownload 0 (TmpRnd ''3'') DlOk, WorkerEmit 0,
         FwdEmit 0, ArchiveItem ZOk, GenClose, WorkerExit 0, FwdDone 0, MergeClose,
         ArchiveFinish True, Upload True] = Some s1 \<and>
      main s1 = MReturned None \<and> failed s1 = [] \<and>
      Do store_demo (New [WithConcurrency 2]) Map.empty dest_zip [res_a, res_b]
        [GenSend 0, GenSend 1, WorkerDownload 1 (TmpRnd ''1'') DlOk, WorkerDownload 0 (TmpRnd ''2'') DlOk,
         WorkerEmit 1, WorkerEmit 0, ArchiveCreate (TmpRnd ''3''), FwdEmit 1, ArchiveItem ZOk,
         FwdEmit 0, ArchiveItem ZOk, GenClose, WorkerExit 0, WorkerExit 1, FwdDone 0, FwdDone 1,
         MergeClose, ArchiveFinish True, Upload True] = Some s2 \<and>
      main s2 = MReturned None \<and> failed s2 = [] \<and>
      uploaded s1 dest_zip = Some (Archive es1) \<and> uploaded s2 dest_zip = Some (Archive es2) \<and>
      es1 = [(''a.txt'', ''bytes of a.txt''), (''b.txt'', ''bytes of b.txt'')] \<and>
      es2 = [(''b.txt'', ''bytes of b.txt''), (''a.txt'', ''bytes of a.txt'')] \<and>
      mset es1 = mset es2)"
proof -
  have c1: "0 < concurrency (New [])" and c2: "0 < concurrency (New [WithConcurrency 2])"
    by (simp_all add: New_def WithConcurrency_def)
  have "\<exists>s1. Do store_demo (New []) Map.empty dest_zip [res_a, res_b]
        [GenSend 0, WorkerDownload 0 (TmpRnd ''1'') DlOk, WorkerEmit 0, ArchiveCreate (TmpRnd ''2''),
         FwdEmit 0, ArchiveItem ZOk, GenSend 0, WorkerDownload 0 (TmpRnd ''3'') DlOk, WorkerEmit 0,
         FwdEmit 0, ArchiveItem ZOk, GenClose, WorkerExit 0, FwdDone 0, MergeClose,
         ArchiveFinish True, Upload True] = Some s1 \<and>
      main s1 = MReturned None \<and> failed s1 = [] \<and>
      uploaded s1 dest_zip = Some (Archive [(''a.txt'', ''bytes of a.txt''), (''b.txt'', ''bytes of b.txt'')])"
    by (simp add: run_defs res_a_def res_b_def dest_zip_def store_demo_def)
  then obtain s1 where r1: "Do store_demo (New []) Map.empty dest_zip [res_a, res_b]
        [GenSend 0, WorkerDownload 0 (TmpRnd ''1'') DlOk, WorkerEmit 0, ArchiveCreate (TmpRnd ''2''),
         FwdEmit 0, ArchiveItem ZOk, GenSend 0, WorkerDownload 0 (TmpRnd ''3'') DlOk, WorkerEmit 0,
         FwdEmit 0, ArchiveItem ZOk, GenClose, WorkerExit 0, FwdDone 0, MergeClose,
         ArchiveFinish True, Upload True] = Some s1" "main s1 = MReturned None" "failed s1 = []"
    and u1: "uploaded s1 dest_zip = Some (Archive [(''a.txt'', ''bytes of a.txt''), (''b.txt'', ''bytes of b.txt'')])"
    by blast
  have "\<exists>s2. Do store_demo (New [WithConcurrency 2]) Map.empty dest_zip [res_a, res_b]
        [GenSend 0, GenSend 1, WorkerDownload 1 (TmpRnd ''1'') DlOk, WorkerDownload 0 (TmpRnd ''2'') DlOk,
         WorkerEmit 1, WorkerEmit 0, ArchiveCreate (TmpRnd ''3''), FwdEmit 1, ArchiveItem ZOk,
         FwdEmit 0, ArchiveItem ZOk, GenClose, WorkerExit 0, WorkerExit 1, FwdDone 0, FwdDone 1,
         MergeClose, ArchiveFinish True, Upload True] = Some s2 \<and>
      main s2 = MReturned None \<and> failed s2 = [] \<and>
      uploaded s2 dest_zip = Some (Archive [(''b.txt'', ''bytes of b.txt''), (''a.txt'', ''bytes of a.txt'')])"
    by (simp add: run_defs res_a_def res_b_def dest_zip_def store_demo_def numeral_2_eq_2)
  then obtain s2 where r2: "Do store_demo (New [WithConcurrency 2]) Map.empty dest_zip [res_a, res_b]
        [GenSend 0, GenSend 1, WorkerDownload 1 (TmpRnd ''1'') DlOk, WorkerDownload 0 (TmpRnd ''2'') DlOk,
         WorkerEmit 1, WorkerEmit 0, ArchiveCreate (TmpRnd ''3''), FwdEmit 1, ArchiveItem ZOk,
         FwdEmit 0, ArchiveItem ZOk, GenClose, WorkerExit 0, WorkerExit 1, FwdDone 0, FwdDone 1,
         MergeClose, ArchiveFinish True, Upload True] = Some s2" "main s2 = MReturned None" "failed s2 = []"
    and u2: "uploaded s2 dest_zip = Some (Archive [(''b.txt'', ''bytes of b.txt''), (''a.txt'', ''bytes of a.txt'')])"
    by blast
  from Do_concurrency_independent [OF c1 c2 r1 r2]
  obtain es1 es2 where "uploaded s1 dest_zip = Some (Archive es1)"
    and "uploaded s2 dest_zip = Some (Archive es2)" and "mset es1 = mset es2"
    by blast
  with u1 u2 r1 r2 c1 c2 show ?thesis
    by (intro conjI exI [of _ s1] exI [of _ s2]) auto
qed

subsection \<open>C9: archive paths with a slash\<close>

text \<open>
  Claim C9 says that a resource whose archive path contains \<open>/\<close>, such as
  \<open>bar/baz.txt\<close> of the README, is staged and becomes an entry of that name.
  \<open>downloadOnDisk\<close> puts the archive path into the pattern of \<open>os.CreateTemp\<close>, which
  refuses a pattern with a path separator: the resource of the README is never staged,
  whatever the storage client answers, and the archive is uploaded without it.
\<close>

theorem slash_path_not_staged:
  "map_option (\<lambda>s. (main s, uploaded s dest_zip, failed s))
     (Do store_demo (New []) Map.empty dest_zip [res_baz]
       [GenSend 0, WorkerDownload 0 (TmpRnd ''1'') DlOk, FwdDone 0, MergeClose,
        ArchiveCreate (TmpRnd ''2''), ArchiveFinish True, Upload True])
   = Some (MReturned None, Some (Archive []),
           [(res_baz, Wrap ''createtemp'' (Cause ''pattern contains path separator''))])"
  by (simp add: run_defs res_baz_def dest_zip_def store_demo_def)

subsection \<open>C10: concurrency zero and below\<close>

text \<open>
  Claim C10, as amended: \<open>New\<close> and \<open>WithConcurrency\<close> take any integer as it is. With
  concurrency 0 and any resources list, \<open>Do\<close> starts no worker; when the zip's temporary
  file can be created and the writer's close and the upload succeed, the run of the
  calling goroutine alone returns \<open>nil\<close> with an archive of zero entries uploaded; and in
  every run no worker exists, nothing is received from the task source, and a return of
  \<open>nil\<close> has uploaded an archive of zero entries.
\<close>

theorem Do_concurrency_zero:
  assumes "fs (''/tmp/'' @ rnd @ ''.s3.zip'') = None"
  shows "concurrency (New [WithConcurrency c]) = c \<and>
    (\<exists>s. Do store (New [WithConcurrency 0]) fs dest rs
            [ArchiveCreate (TmpRnd rnd), MergeClose, ArchiveFinish True, Upload True] = Some s
          \<and> main s = MReturned None \<and> uploaded s dest = Some (Archive [])
          \<and> workers s = [] \<and> received s = []) \<and>
    (\<forall>sched s. Do store (New [WithConcurrency 0]) fs dest rs sched = Some s \<longrightarrow>
          workers s = [] \<and> received s = [] \<and>
          (main s = MReturned None \<longrightarrow> uploaded s dest = Some (Archive [])))"
proof -
  have z: "concurrency (New [WithConcurrency 0]) = 0"
    by (simp add: New_def WithConcurrency_def)
  have "concurrency (New [WithConcurrency c]) = c"
    by (simp add: New_def WithConcurrency_def)
  moreover from z assms Do_zero_run [where z = "New [WithConcurrency 0]" and fs = fs and rnd = rnd]
  have "\<exists>s. Do store (New [WithConcurrency 0]) fs dest rs
            [ArchiveCreate (TmpRnd rnd), MergeClose, ArchiveFinish True, Upload True] = Some s
          \<and> main s = MReturned None \<and> uploaded s dest = Some (Archive [])
          \<and> workers s = [] \<and> received s = []"
    by blast
  moreover have "workers s = [] \<and> received s = [] \<and>
          (main s = MReturned None \<longrightarrow> uploaded s dest = Some (Archive []))"
    if run: "Do store (New [WithConcurrency 0]) fs dest rs sched = Some s" for sched s
  proof -
    from Do_zero_any [OF z run] have "inv_idle s" and "destObj s = dest"
      by simp_all
    then show ?thesis by (simp add: inv_idle_def)
  qed
  ultimately show ?thesis by blast
qed

text \<open>The run of the theorem on the resources of scenario A, in an empty temporary directory.\<close>

theorem Do_concurrency_zero_witness:
  "(Map.empty :: fsys) (''/tmp/'' @ ''1'' @ ''.s3.zip'') = None \<and>
   (\<exists>s. Do store_demo (New [WithConcurrency 0]) Map.empty dest_zip [res_a]
            [ArchiveCreate (TmpRnd ''1''), MergeClose, ArchiveFinish True, Upload True] = Some s
          \<and> main s = MReturned None \<and> uploaded s dest_zip = Some (Archive [])
          \<and> workers s = [] \<and> received s = [])"
  using Do_concurrency_zero [of Map.empty "''1''" 0 store_demo dest_zip "[res_a]"] by simp

text \<open>
  Below zero the claim fails: \<open>make([]<-chan Resource, z.concurrency)\<close> panics on a
  negative length, so \<open>Do\<close> with concurrency \<open>-1\<close> does not return \<open>nil\<close>; it does not
  return at all.
\<close>

theorem Do_negative_concurrency_panics:
  "main (Do_start (New [WithConcurrency (- 1)]) Map.empty dest_zip [res_a]) = MPanic \<and>
   \<not> (\<exists>sched s. Do store_demo (New [WithConcurrency (- 1)]) Map.empty dest_zip [res_a] sched = Some s
         \<and> main s = MReturned None)"
proof -
  have start: "main (Do_start (New [WithConcurrency (- 1)]) Map.empty dest_zip [res_a]) = MPanic"
    by (simp add: Do_start_def New_def WithConcurrency_def)
  have "main s = MPanic"
    if "Do store_demo (New [WithConcurrency (- 1)]) Map.empty dest_zip [res_a] sched = Some s"
    for sched s
    using that start unfolding Do_def
    by (rule exec_invariant) (rule panic_step)
  with start show ?thesis by fastforce
qed

subsection \<open>Further properties of the pipeline\<close>

text \<open>
  Every run of \<open>Do\<close> is finite: a schedule that the pipeline can follow has at most
  \<open>6 * length rs + 2 * concurrency + 7\<close> steps, whatever the outcomes of the calls.
\<close>

theorem Do_runs_are_bounded:
  assumes "Do store z fs dest rs sched = Some s"
  shows "length sched \<le> 6 * length rs + 2 * nat (concurrency z) + 7"
proof -
  from assms have "length sched + fuel s \<le> fuel (Do_start z fs dest rs)"
    unfolding Do_def by (rule exec_fuel)
  with fuel_start [of z fs dest rs] show ?thesis by simp
qed

theorem Do_runs_are_bounded_witness:
  "\<exists>s. Do store_demo (New []) Map.empty dest_zip [res_a]
        [GenSend 0, WorkerDownload 0 (TmpRnd ''1'') DlOk, WorkerEmit 0, ArchiveCreate (TmpRnd ''2''),
         FwdEmit 0, ArchiveItem ZOk, GenClose, WorkerExit 0, FwdDone 0, MergeClose,
         ArchiveFinish True, Upload True] = Some s \<and>
      main s = MReturned None \<and>
      length [GenSend 0, WorkerDownload 0 (TmpRnd ''1'') DlOk, WorkerEmit 0, ArchiveCreate (TmpRnd ''2''),
         FwdEmit 0, ArchiveItem ZOk, GenClose, WorkerExit 0, FwdDone 0, MergeClose,
         ArchiveFinish True, Upload True] \<le> 6 * length [res_a] + 2 * nat (concurrency (New [])) + 7"
proof -
  have "\<exists>s. Do store_demo (New []) Map.empty dest_zip [res_a]
        [GenSend 0, WorkerDownload 0 (TmpRnd ''1'') DlOk, WorkerEmit 0, ArchiveCreate (TmpRnd ''2''),
         FwdEmit 0, ArchiveItem ZOk, GenClose, WorkerExit 0, FwdDone 0, MergeClose,
         ArchiveFinish True, Upload True] = Some s \<and> main s = MReturned None"
    by (simp add: run_defs res_a_def dest_zip_def store_demo_def)
  then obtain s where run: "Do store_demo (New []) Map.empty dest_zip [res_a]
        [GenSend 0, WorkerDownload 0 (TmpRnd ''1'') DlOk, WorkerEmit 0, ArchiveCreate (TmpRnd ''2''),
         FwdEmit 0, ArchiveItem ZOk, GenClose, WorkerExit 0, FwdDone 0, MergeClose,
         ArchiveFinish True, Upload True] = Some s" and m: "main s = MReturned None"
    by (elim exE conjE)
  from Do_runs_are_bounded [OF run] run m show ?thesis
    by (intro exI [of _ s] conjI)
qed

text \<open>
  No deadlock while things go well: with finitely many files in the temporary directory and
  no path separator in the archive paths, in every state a run reaches in which \<open>Do\<close> has
  not returned, some goroutine can take a step in which no download fails and \<open>Do\<close> does
  not return an error.
\<close>

theorem Do_no_deadlock:
  assumes "Do store z fs dest rs sched = Some s" and "running (main s)"
    and "finite (dom fs)" and "\<forall>res. res \<in> set rs \<longrightarrow> CHR ''/'' \<notin> set (FileName res)"
  shows "\<exists>a s1. good_step store s a s1"
proof -
  from assms(1,3,4) have "inv_env s" by (auto intro: Do_inv_env)
  with Do_inv_run [OF assms(1)] assms(2) show ?thesis by (auto intro: progress)
qed

theorem Do_no_deadlock_witness:
  "finite (dom (Map.empty :: fsys)) \<and> CHR ''/'' \<notin> set (FileName res_a) \<and>
   (\<exists>s a s1. Do store_demo (New []) Map.empty dest_zip [res_a] [GenSend 0] = Some s \<and>
      running (main s) \<and> good_step store_demo s a s1)"
proof -
  have f: "finite (dom (Map.empty :: fsys))" by simp
  have n: "CHR ''/'' \<notin> set (FileName res_a)" by (simp add: res_a_def)
  then have ns: "\<forall>res. res \<in> set [res_a] \<longrightarrow> CHR ''/'' \<notin> set (FileName res)" by simp
  have "\<exists>s. Do store_demo (New []) Map.empty dest_zip [res_a] [GenSend 0] = Some s \<and> running (main s)"
    by (simp add: run_defs)
  then obtain s where run: "Do store_demo (New []) Map.empty dest_zip [res_a] [GenSend 0] = Some s"
    and r: "running (main s)"
    by (elim exE conjE)
  from Do_no_deadlock [OF run r f ns] obtain a s1 where "good_step store_demo s a s1"
    by (elim exE)
  with f n run r show ?thesis
    by (intro conjI exI [of _ s] exI [of _ a] exI [of _ s1])
qed

text \<open>
  \<open>Do\<close> never returns the error of a download: an error it returns is wrapped by
  \<open>failed to zip\<close> or by \<open>failed to upload zip\<close>, the two stages of its own body.
\<close>

theorem Do_error_is_zip_or_upload:
  assumes "Do store z fs dest rs sched = Some s" and "main s = MReturned (Some e)"
  shows "\<exists>e1. e = Wrap ''failed to zip'' e1 \<or> e = Wrap ''failed to upload zip'' e1"
proof -
  have "inv_error (Do_start z fs dest rs)"
    by (simp add: inv_error_def Do_start_def)
  with assms(1) have "inv_error s"
    unfolding Do_def by (rule exec_invariant) (rule inv_error_step)
  with assms(2) show ?thesis by (simp add: inv_error_def)
qed

theorem Do_error_is_zip_or_upload_witness:
  "\<exists>s e e1. Do store_demo (New []) Map.empty dest_zip [res_a]
        [ArchiveCreate TmpErr] = Some s \<and> main s = MReturned (Some e) \<and>
      (e = Wrap ''failed to zip'' e1 \<or> e = Wrap ''failed to upload zip'' e1)"
proof -
  have "\<exists>s e. Do store_demo (New []) Map.empty dest_zip [res_a] [ArchiveCreate TmpErr] = Some s \<and>
      main s = MReturned (Some e)"
    by (simp add: run_defs)
  then obtain s e where run: "Do store_demo (New []) Map.empty dest_zip [res_a] [ArchiveCreate TmpErr] = Some s"
    and m: "main s = MReturned (Some e)"
    by (elim exE conjE)
  from Do_error_is_zip_or_upload [OF run m] obtain e1
    where "e = Wrap ''failed to zip'' e1 \<or> e = Wrap ''failed to upload zip'' e1"
    by (elim exE)
  with run m show ?thesis
    by (intro exI [of _ s] exI [of _ e] exI [of _ e1] conjI)
qed

text \<open>
  What the deferred removals achieve: when no download has failed and \<open>Do\<close> returns
  \<open>nil\<close> or the error of the upload, the temporary directory is as it was before the
  run; every file the run created has been removed.
\<close>

theorem Do_cleans_up:
  assumes "Do store z fs dest rs sched = Some s" and "failed s = []"
    and "main s = MReturned None \<or> (\<exists>e. main s = MReturned (Some (Wrap ''failed to upload zip'' e)))"
  shows "files s = fs"
proof -
  from assms(3) have t: "tidy (main s)" and le: "loop_ended (main s)" and m: "mpaths (main s) = {}"
    by auto
  from Do_inv_run [OF assms(1)] have str: "inv_struct s" by (simp add: inv_run_def)
  with le have "out_closed s" by (simp add: inv_struct_def)
  from drained_no_paths [OF str this] m have "live s = {}" by (simp add: live_def)
  with Do_inv_tidy [OF assms(1)] assms(2) t have "files s p = fs p" for p
    by (simp add: inv_tidy_def)
  then show ?thesis by (rule ext)
qed

theorem Do_cleans_up_witness:
  "\<exists>s. Do store_demo (New []) Map.empty dest_zip [res_a]
        [GenSend 0, WorkerDownload 0 (TmpRnd ''1'') DlOk, WorkerEmit 0, ArchiveCreate (TmpRnd ''2''),
         FwdEmit 0, ArchiveItem ZOk, GenClose, WorkerExit 0, FwdDone 0, MergeClose,
         ArchiveFinish True, Upload True] = Some s \<and>
      main s = MReturned None \<and> failed s = [] \<and> files s = Map.empty"
proof -
  have "\<exists>s. Do store_demo (New []) Map.empty dest_zip [res_a]
        [GenSend 0, WorkerDownload 0 (TmpRnd ''1'') DlOk, WorkerEmit 0, ArchiveCreate (TmpRnd ''2''),
         FwdEmit 0, ArchiveItem ZOk, GenClose, WorkerExit 0, FwdDone 0, MergeClose,
         ArchiveFinish True, Upload True] = Some s \<and> main s = MReturned None \<and> failed s = []"
    by (simp add: run_defs res_a_def dest_zip_def store_demo_def)
  then obtain s where run: "Do store_demo (New []) Map.empty dest_zip [res_a]
        [GenSend 0, WorkerDownload 0 (TmpRnd ''1'') DlOk, WorkerEmit 0, ArchiveCreate (TmpRnd ''2''),
         FwdEmit 0, ArchiveItem ZOk, GenClose, WorkerExit 0, FwdDone 0, MergeClose,
         ArchiveFinish True, Upload True] = Some s" and m: "main s = MReturned None"
    and f: "failed s = []"
    by (elim exE conjE)
  from m have "main s = MReturned None \<or> (\<exists>e. main s = MReturned (Some (Wrap ''failed to upload zip'' e)))"
    by simp
  from Do_cleans_up [OF run f this] run m f show ?thesis
    by (intro exI [of _ s] conjI)
qed

end
